theory Spec2Isabelle
  imports Main "HOL-Library.Signed_Division"
begin

section \<open>Contiguous circular queues (\<^verbatim>\<open>queue.hpp\<close>)\<close>

text \<open>
  The header defines two class templates, \<^verbatim>\<open>nstd::queue<T, INT_TYPE>\<close> and
  \<^verbatim>\<open>nstd::queue_trivial<T, INT_TYPE>\<close>. Both keep a heap block \<^verbatim>\<open>buffer_\<close> and four
  integers \<^verbatim>\<open>front_\<close>, \<^verbatim>\<open>back_\<close>, \<^verbatim>\<open>capacity_\<close>, \<^verbatim>\<open>size_\<close>.

  Modelling decisions.
  \<^item> \<^verbatim>\<open>INT_TYPE\<close> is a template parameter (\<^verbatim>\<open>int\<close> by default). Its values are integers, and
    its largest value \<open>int_type_max\<close> is a parameter of the model. The one place where a value
    can leave the type is \<^verbatim>\<open>capacity_ *= 2\<close> (and \<^verbatim>\<open>capacity_ = 2\<close>) in the growth check: for
    \<^verbatim>\<open>int\<close> and wider types the overflow is undefined; for a narrower type the stored value
    wraps (64 becomes \<open>-128\<close> in a \<^verbatim>\<open>signed char\<close>), \<^verbatim>\<open>sizeof(T) * capacity_\<close> is then a request
    that no allocator grants and the code aborts, or wraps to a smaller capacity whose
    block the copy loop overruns. In each case the call does not return; it is the error
    \<open>CapacityOverflow\<close>. The other sums of the code (\<^verbatim>\<open>front_ + i\<close>, \<^verbatim>\<open>back_ + 1\<close>,
    \<^verbatim>\<open>back_ + (size_ - 1)\<close>) are at most \<open>2 * capacity_ - 2\<close> in a reachable state, where the
    capacity is a power of two that fits the type; they carry no overflow branch.
  \<^item> The operator \<^verbatim>\<open>%\<close> of C++ truncates towards zero; it is \<open>smod\<close>. A zero divisor is
    undefined behaviour and is an error branch of the model.
  \<^item> A block of \<open>n\<close> slots is a list of length \<open>n\<close>; a slot that was never written holds
    \<open>None\<close> (\<^verbatim>\<open>malloc\<close> does not initialise memory). The null pointer is the block \<open>[]\<close>.
    An access outside the block is undefined behaviour and is an error branch.
  \<^item> A reference \<^verbatim>\<open>T&\<close> into the buffer is the index of the slot it refers to.
  \<^item> \<^verbatim>\<open>assert\<close> that fails is the error \<open>AssertionFailed\<close>.
  \<^item> \<^verbatim>\<open>malloc\<close> is a parameter of the model: \<open>malloc_ok k n\<close> tells whether the call of
    \<^verbatim>\<open>malloc\<close> that follows \<open>k\<close> earlier calls of the instance, for a block of \<open>n\<close> slots, returns
    a block. When it returns the null pointer the code calls \<^verbatim>\<open>abort()\<close>: the error \<open>Aborted\<close>.
    The product \<^verbatim>\<open>sizeof(T) * capacity_\<close> of a capacity that fits \<^verbatim>\<open>INT_TYPE\<close> is taken not to wrap
    \<^verbatim>\<open>size_t\<close>: before it could, the block of half that size would have been refused.
  \<^item> The argument of \<^verbatim>\<open>push_back\<close> is a reference. It refers either to an object outside
    the buffer (\<open>Outside v\<close>, with its value) or to a slot of the queue's own buffer
    (\<open>Slot k\<close>, as in \<^verbatim>\<open>q.push_back(q[0])\<close>). The code reads it after the growth check; when
    that check has freed the block the reference points into, the read is the error
    \<open>UseAfterFree\<close>.
  \<^item> What the move assignment of \<^verbatim>\<open>T\<close> leaves in its source belongs to \<^verbatim>\<open>T\<close>; it is the
    parameter \<open>moved_from\<close>.
  \<^item> The calls of placement \<^verbatim>\<open>new\<close>, of \<^verbatim>\<open>~T()\<close> and of \<^verbatim>\<open>malloc\<close> are counted in three
    fields that the C++ object does not have (\<open>constructed\<close>, \<open>destroyed\<close>, \<open>mallocs\<close>).
    An assignment \<^verbatim>\<open>buffer_[i] = x\<close> calls \<^verbatim>\<open>operator=\<close>, not a constructor. A destructor call
    is counted and leaves the slot's value where it is.
\<close>

datatype error =
    AssertionFailed
  | UndefinedBehaviour
  | CapacityOverflow
  | Aborted
  | UseAfterFree

type_synonym 'a block = "'a option list"

definition in_block :: "'a block \<Rightarrow> int \<Rightarrow> bool" where
  "in_block b i \<longleftrightarrow> 0 \<le> i \<and> i < int (length b)"

text \<open>The parameters of an instantiation: \<^verbatim>\<open>INT_TYPE\<close>, the allocator and \<^verbatim>\<open>T\<close>'s move.\<close>

record 'a env =
  int_type_max :: int
  malloc_ok :: "nat \<Rightarrow> nat \<Rightarrow> bool"
  moved_from :: "'a option \<Rightarrow> 'a option"

text \<open>
  Two instantiations with an allocator that grants every request and a move that leaves
  its source as it is (as for \<^verbatim>\<open>T = int\<close>): \<^verbatim>\<open>INT_TYPE = int\<close> of 32 bits, the default, and
  \<^verbatim>\<open>INT_TYPE = signed char\<close>.
\<close>

definition int_env :: "'a env" where
  "int_env = \<lparr>int_type_max = 2147483647, malloc_ok = (\<lambda>k n. True), moved_from = (\<lambda>v. v)\<rparr>"

definition schar_env :: "'a env" where
  "schar_env = \<lparr>int_type_max = 127, malloc_ok = (\<lambda>k n. True), moved_from = (\<lambda>v. v)\<rparr>"

text \<open>
  The argument of \<^verbatim>\<open>push_back\<close>, and the read of it after the growth check: \<open>freed\<close> tells
  whether the check has freed the block that was the buffer when the call started.
\<close>

datatype 'a arg = Outside 'a | Slot nat

fun fetch :: "bool \<Rightarrow> 'a block \<Rightarrow> 'a arg \<Rightarrow> error + 'a option" where
  "fetch freed b (Outside v) = Inr (Some v)"
| "fetch freed b (Slot k) =
     (if freed then Inl UseAfterFree
      else if in_block b (int k) then Inr (b ! k)
      else Inl UndefinedBehaviour)"

subsection \<open>The general variant: \<^verbatim>\<open>queue\<close>\<close>

record 'a queue =
  buffer_m :: "'a block"
  front_m :: int
  back_m :: int
  capacity_m :: int
  size_m :: int
  constructed :: nat
  destroyed :: nat
  mallocs :: nat

text \<open>\<^verbatim>\<open>queue() {}\<close> with the member initialisers.\<close>

definition queue_new :: "'a queue" where
  "queue_new = \<lparr>buffer_m = [], front_m = 0, back_m = 0, capacity_m = 0, size_m = 0,
                constructed = 0, destroyed = 0, mallocs = 0\<rparr>"

text \<open>
  The copy loop of \<^verbatim>\<open>should_reallocate\<close>:
  \<^verbatim>\<open>for (i = 0; i < size_; i++) { index_rolling = (front_ + i) % size_;
       buffer_new[i] = std::move(buffer_[index_rolling]); }\<close>
\<close>

function move_loop :: "'a block \<Rightarrow> int \<Rightarrow> int \<Rightarrow> int \<Rightarrow> 'a block \<Rightarrow> error + 'a block" where
  "move_loop buffer_old fr sz i buffer_new =
     (if i < sz then
        (if sz = 0 then Inl UndefinedBehaviour
         else let index_rolling = (fr + i) smod sz in
           if in_block buffer_old index_rolling \<and> in_block buffer_new i
           then move_loop buffer_old fr sz (i + 1)
                  (buffer_new[nat i := buffer_old ! nat index_rolling])
           else Inl UndefinedBehaviour)
      else Inr buffer_new)"
  by pat_completeness auto
termination
  by (relation "measure (\<lambda>(buffer_old, fr, sz, i, buffer_new). nat (sz - i))") auto

declare move_loop.simps [simp del]

text \<open>
  \<^verbatim>\<open>should_reallocate()\<close>: the new capacity, \<^verbatim>\<open>malloc\<close> and its null check, the copy loop,
  \<^verbatim>\<open>free\<close> of the old block (the old block is dropped from the state), the new handles.
\<close>

definition should_reallocate :: "'a env \<Rightarrow> 'a queue \<Rightarrow> error + 'a queue" where
  "should_reallocate m q =
     (if capacity_m q = size_m q then
        (let capacity_new = (if capacity_m q = 0 then 2 else capacity_m q * 2) in
         if int_type_max m < capacity_new then Inl CapacityOverflow
         else if \<not> malloc_ok m (mallocs q) (nat capacity_new) then Inl Aborted
         else
           (let buffer_new = replicate (nat capacity_new) None
            in case move_loop (buffer_m q) (front_m q) (size_m q) 0 buffer_new of
                 Inl e \<Rightarrow> Inl e
               | Inr buffer_moved \<Rightarrow>
                   Inr (q\<lparr>buffer_m := buffer_moved, capacity_m := capacity_new,
                          front_m := 0, back_m := size_m q, mallocs := mallocs q + 1\<rparr>)))
      else Inr q)"

text \<open>Iterators: \<^verbatim>\<open>begin()\<close>, \<^verbatim>\<open>end()\<close> and the operators of \<^verbatim>\<open>queue::iterator\<close>.\<close>

record 'a iterator =
  it_buffer :: "'a block"
  it_front :: int
  it_capacity :: int
  it_offset :: int

definition iterator_new :: "'a block \<Rightarrow> int \<Rightarrow> int \<Rightarrow> int \<Rightarrow> 'a iterator" where
  "iterator_new buffer fr offset capacity =
     \<lparr>it_buffer = buffer, it_front = fr, it_capacity = capacity, it_offset = offset\<rparr>"

definition iterator_deref :: "'a iterator \<Rightarrow> error + nat" where
  "iterator_deref a =
     (if it_capacity a = 0 then Inl UndefinedBehaviour
      else let slot = (it_offset a + it_front a) smod it_capacity a in
        if in_block (it_buffer a) slot then Inr (nat slot) else Inl UndefinedBehaviour)"

definition iterator_incr :: "'a iterator \<Rightarrow> 'a iterator" where
  "iterator_incr a = a\<lparr>it_offset := it_offset a + 1\<rparr>"

definition iterator_eq :: "'a iterator \<Rightarrow> 'a iterator \<Rightarrow> bool" where
  "iterator_eq a b \<longleftrightarrow> it_offset a = it_offset b"

definition iterator_neq :: "'a iterator \<Rightarrow> 'a iterator \<Rightarrow> bool" where
  "iterator_neq a b \<longleftrightarrow> it_offset a \<noteq> it_offset b"

definition begin_it :: "'a queue \<Rightarrow> 'a iterator" where
  "begin_it q = iterator_new (buffer_m q) (front_m q) 0 (capacity_m q)"

definition end_it :: "'a queue \<Rightarrow> 'a iterator" where
  "end_it q = iterator_new (buffer_m q) (front_m q) (size_m q) (capacity_m q)"

text \<open>
  \<^verbatim>\<open>push_back(const T&)\<close>: the growth check runs first, then \<^verbatim>\<open>data\<close> is read and assigned
  into the slot at \<^verbatim>\<open>back_\<close>. The growth check has freed the old block exactly when
  \<^verbatim>\<open>capacity_ == size_\<close> held on entry.
\<close>

definition push_back :: "'a env \<Rightarrow> 'a queue \<Rightarrow> 'a arg \<Rightarrow> error + 'a queue" where
  "push_back m q data =
     (case should_reallocate m q of
        Inl e \<Rightarrow> Inl e
      | Inr q1 \<Rightarrow>
          if \<not> in_block (buffer_m q1) (back_m q1) \<or> capacity_m q1 = 0
          then Inl UndefinedBehaviour
          else (case fetch (capacity_m q = size_m q) (buffer_m q1) data of
                  Inl e \<Rightarrow> Inl e
                | Inr v \<Rightarrow>
                    Inr (q1\<lparr>buffer_m := (buffer_m q1)[nat (back_m q1) := v],
                           back_m := (back_m q1 + 1) smod capacity_m q1,
                           size_m := size_m q1 + 1\<rparr>)))"

text \<open>
  \<^verbatim>\<open>push_back(T&&)\<close>: the same with a move assignment; a source inside the buffer is left
  as \<^verbatim>\<open>T\<close>'s move leaves it (a source outside the buffer belongs to the caller).
\<close>

definition push_back_move :: "'a env \<Rightarrow> 'a queue \<Rightarrow> 'a arg \<Rightarrow> error + 'a queue" where
  "push_back_move m q data =
     (case should_reallocate m q of
        Inl e \<Rightarrow> Inl e
      | Inr q1 \<Rightarrow>
          if \<not> in_block (buffer_m q1) (back_m q1) \<or> capacity_m q1 = 0
          then Inl UndefinedBehaviour
          else (case fetch (capacity_m q = size_m q) (buffer_m q1) data of
                  Inl e \<Rightarrow> Inl e
                | Inr v \<Rightarrow>
                    Inr (q1\<lparr>buffer_m :=
                             (case data of
                                Outside x \<Rightarrow> (buffer_m q1)[nat (back_m q1) := v]
                              | Slot k \<Rightarrow> (buffer_m q1)[nat (back_m q1) := v,
                                               k := moved_from m (buffer_m q1 ! k)]),
                           back_m := (back_m q1 + 1) smod capacity_m q1,
                           size_m := size_m q1 + 1\<rparr>)))"

text \<open>
  \<^verbatim>\<open>emplace_back()\<close>: placement \<^verbatim>\<open>new\<close> of \<^verbatim>\<open>T()\<close> at \<^verbatim>\<open>back_\<close>; \<open>dflt\<close> is the value of
  \<^verbatim>\<open>T()\<close>. The result is the reference to the new slot and the new state. Placement
  \<^verbatim>\<open>new\<close> returns the address it was given, which is not null here, so the \<^verbatim>\<open>abort()\<close> after
  it has no branch.
\<close>

definition emplace_back :: "'a env \<Rightarrow> 'a \<Rightarrow> 'a queue \<Rightarrow> error + (nat \<times> 'a queue)" where
  "emplace_back m dflt q =
     (case should_reallocate m q of
        Inl e \<Rightarrow> Inl e
      | Inr q1 \<Rightarrow>
          if \<not> in_block (buffer_m q1) (back_m q1) \<or> capacity_m q1 = 0
          then Inl UndefinedBehaviour
          else Inr (nat (back_m q1),
                    q1\<lparr>buffer_m := (buffer_m q1)[nat (back_m q1) := Some dflt],
                       back_m := (back_m q1 + 1) smod capacity_m q1,
                       size_m := size_m q1 + 1,
                       constructed := constructed q1 + 1\<rparr>))"

definition front :: "'a queue \<Rightarrow> error + nat" where
  "front q =
     (if size_m q = 0 then Inl AssertionFailed
      else if in_block (buffer_m q) (front_m q) then Inr (nat (front_m q))
      else Inl UndefinedBehaviour)"

text \<open>
  \<^verbatim>\<open>back()\<close>. The names \<open>back\<close>, \<open>size\<close> and \<open>empty\<close> are taken in Isabelle/HOL, so the
  functions are \<open>back_q\<close>, \<open>size_q\<close> and \<open>empty_q\<close>; \<^verbatim>\<open>operator[]\<close> is \<open>index\<close>, \<^verbatim>\<open>~queue()\<close> is
  \<open>destroy\<close>, \<^verbatim>\<open>begin()\<close> and \<^verbatim>\<open>end()\<close> are \<open>begin_it\<close> and \<open>end_it\<close>. The members carry the
  suffix \<open>_m\<close> (\<open>_t\<close> in the trivial variant) in place of the trailing underscore.
\<close>

definition back_q :: "'a queue \<Rightarrow> error + nat" where
  "back_q q =
     (if size_m q = 0 then Inl AssertionFailed
      else if capacity_m q = 0 then Inl UndefinedBehaviour
      else let last = (back_m q + (size_m q - 1)) smod capacity_m q in
        if in_block (buffer_m q) last then Inr (nat last) else Inl UndefinedBehaviour)"

definition pop :: "'a queue \<Rightarrow> error + 'a queue" where
  "pop q =
     (if size_m q = 0 then Inl AssertionFailed
      else if \<not> in_block (buffer_m q) (front_m q) \<or> capacity_m q = 0
      then Inl UndefinedBehaviour
      else Inr (q\<lparr>destroyed := destroyed q + 1,
                  front_m := (front_m q + 1) smod capacity_m q,
                  size_m := size_m q - 1\<rparr>))"

text \<open>\<^verbatim>\<open>clear()\<close>: \<^verbatim>\<open>while (size_ > 0) pop();\<close> and then both handles are reset.\<close>

function clear_loop :: "'a queue \<Rightarrow> error + 'a queue" where
  "clear_loop q =
     (if size_m q > 0 then (case pop q of Inl e \<Rightarrow> Inl e | Inr q1 \<Rightarrow> clear_loop q1)
      else Inr q)"
  by pat_completeness auto
termination
  by (relation "measure (\<lambda>q. nat (size_m q))") (auto simp: pop_def split: if_splits)

declare clear_loop.simps [simp del]

definition clear :: "'a queue \<Rightarrow> error + 'a queue" where
  "clear q =
     (case clear_loop q of
        Inl e \<Rightarrow> Inl e
      | Inr q1 \<Rightarrow> Inr (q1\<lparr>front_m := 0, back_m := 0\<rparr>))"

definition size_q :: "'a queue \<Rightarrow> int" where
  "size_q q = size_m q"

definition empty_q :: "'a queue \<Rightarrow> bool" where
  "empty_q q \<longleftrightarrow> size_m q = 0"

text \<open>\<^verbatim>\<open>operator[]\<close> (both overloads have the same body).\<close>

definition index :: "'a queue \<Rightarrow> int \<Rightarrow> error + nat" where
  "index q i =
     (if \<not> (i \<ge> 0 \<and> i < size_m q) then Inl AssertionFailed
      else if capacity_m q = 0 then Inl UndefinedBehaviour
      else let index_rolling = (front_m q + i) smod capacity_m q in
        if in_block (buffer_m q) index_rolling then Inr (nat index_rolling)
        else Inl UndefinedBehaviour)"

text \<open>
  \<^verbatim>\<open>~queue()\<close>: nothing for the null buffer; otherwise one destructor call for each of the
  \<^verbatim>\<open>size_\<close> slots \<^verbatim>\<open>(front_ + i) % capacity_\<close>, then the block is freed.
\<close>

function destroy_loop :: "'a queue \<Rightarrow> int \<Rightarrow> error + 'a queue" where
  "destroy_loop q i =
     (if i < size_m q then
        (if capacity_m q = 0 then Inl UndefinedBehaviour
         else let index_rolling = (front_m q + i) smod capacity_m q in
           if in_block (buffer_m q) index_rolling
           then destroy_loop (q\<lparr>destroyed := destroyed q + 1\<rparr>) (i + 1)
           else Inl UndefinedBehaviour)
      else Inr q)"
  by pat_completeness auto
termination
  by (relation "measure (\<lambda>(q, i). nat (size_m q - i))") auto

declare destroy_loop.simps [simp del]

definition destroy :: "'a queue \<Rightarrow> error + 'a queue" where
  "destroy q =
     (if buffer_m q = [] then Inr q
      else case destroy_loop q 0 of
             Inl e \<Rightarrow> Inl e
           | Inr q1 \<Rightarrow> Inr (q1\<lparr>buffer_m := []\<rparr>))"

text \<open>What a reference read gives: the content of the slot in the current block.\<close>

definition deref :: "'a queue \<Rightarrow> error + nat \<Rightarrow> error + 'a option" where
  "deref q r = (case r of Inl e \<Rightarrow> Inl e | Inr slot \<Rightarrow> Inr (buffer_m q ! slot))"

text \<open>Sequences of calls on one instance; the first error ends the run.\<close>

datatype 'a queue_op =
    PushBack "'a arg"
  | PushBackMove "'a arg"
  | EmplaceBack 'a
  | Pop
  | Clear

fun step :: "'a env \<Rightarrow> 'a queue \<Rightarrow> 'a queue_op \<Rightarrow> error + 'a queue" where
  "step m q (PushBack x) = push_back m q x"
| "step m q (PushBackMove x) = push_back_move m q x"
| "step m q (EmplaceBack d) =
     (case emplace_back m d q of Inl e \<Rightarrow> Inl e | Inr (r, q1) \<Rightarrow> Inr q1)"
| "step m q Pop = pop q"
| "step m q Clear = clear q"

fun run :: "'a env \<Rightarrow> 'a queue \<Rightarrow> 'a queue_op list \<Rightarrow> error + 'a queue" where
  "run m q [] = Inr q"
| "run m q (a # as) = (case step m q a of Inl e \<Rightarrow> Inl e | Inr q1 \<Rightarrow> run m q1 as)"

subsection \<open>The trivial variant: \<^verbatim>\<open>queue_trivial\<close>\<close>

record 'a queue_trivial =
  buffer_t :: "'a block"
  front_t :: int
  back_t :: int
  capacity_t :: int
  size_t :: int
  mallocs_t :: nat

definition queue_trivial_new :: "'a queue_trivial" where
  "queue_trivial_new =
     \<lparr>buffer_t = [], front_t = 0, back_t = 0, capacity_t = 0, size_t = 0, mallocs_t = 0\<rparr>"

text \<open>
  \<^verbatim>\<open>memcpy(buffer_new, buffer_, sizeof(T) * size_)\<close>: the first \<^verbatim>\<open>size_\<close> slots of the old
  block, in their physical order, land in the first \<^verbatim>\<open>size_\<close> slots of the new one.
\<close>

definition memcpy :: "'a block \<Rightarrow> 'a block \<Rightarrow> int \<Rightarrow> error + 'a block" where
  "memcpy dst src n =
     (if 0 \<le> n \<and> n \<le> int (length src) \<and> n \<le> int (length dst)
      then Inr (take (nat n) src @ drop (nat n) dst)
      else Inl UndefinedBehaviour)"

definition t_should_reallocate ::
  "'a env \<Rightarrow> 'a queue_trivial \<Rightarrow> error + 'a queue_trivial" where
  "t_should_reallocate m q =
     (if capacity_t q = size_t q then
        (let capacity_new = (if capacity_t q = 0 then 2 else capacity_t q * 2) in
         if int_type_max m < capacity_new then Inl CapacityOverflow
         else if \<not> malloc_ok m (mallocs_t q) (nat capacity_new) then Inl Aborted
         else
           (let buffer_new = replicate (nat capacity_new) None
            in case memcpy buffer_new (buffer_t q) (size_t q) of
                 Inl e \<Rightarrow> Inl e
               | Inr buffer_copied \<Rightarrow>
                   Inr (q\<lparr>buffer_t := buffer_copied, capacity_t := capacity_new,
                          front_t := 0, back_t := size_t q,
                          mallocs_t := mallocs_t q + 1\<rparr>)))
      else Inr q)"

definition t_clear :: "'a queue_trivial \<Rightarrow> 'a queue_trivial" where
  "t_clear q = q\<lparr>front_t := 0, back_t := 0\<rparr>"

definition t_push_back ::
  "'a env \<Rightarrow> 'a queue_trivial \<Rightarrow> 'a arg \<Rightarrow> error + 'a queue_trivial" where
  "t_push_back m q data =
     (case t_should_reallocate m q of
        Inl e \<Rightarrow> Inl e
      | Inr q1 \<Rightarrow>
          if \<not> in_block (buffer_t q1) (back_t q1) \<or> capacity_t q1 = 0
          then Inl UndefinedBehaviour
          else (case fetch (capacity_t q = size_t q) (buffer_t q1) data of
                  Inl e \<Rightarrow> Inl e
                | Inr v \<Rightarrow>
                    Inr (q1\<lparr>buffer_t := (buffer_t q1)[nat (back_t q1) := v],
                           back_t := (back_t q1 + 1) smod capacity_t q1,
                           size_t := size_t q1 + 1\<rparr>)))"

text \<open>
  \<^verbatim>\<open>emplace_back(FuncInit init)\<close>: the callback works on the slot in place; it is a
  function from the slot's old content to its new content.
\<close>

definition t_emplace_back_init ::
  "'a env \<Rightarrow> ('a option \<Rightarrow> 'a option) \<Rightarrow> 'a queue_trivial \<Rightarrow>
     error + (nat \<times> 'a queue_trivial)" where
  "t_emplace_back_init m init q =
     (case t_should_reallocate m q of
        Inl e \<Rightarrow> Inl e
      | Inr q1 \<Rightarrow>
          if \<not> in_block (buffer_t q1) (back_t q1) \<or> capacity_t q1 = 0
          then Inl UndefinedBehaviour
          else Inr (nat (back_t q1),
                    q1\<lparr>buffer_t := (buffer_t q1)[nat (back_t q1) :=
                                       init (buffer_t q1 ! nat (back_t q1))],
                       back_t := (back_t q1 + 1) smod capacity_t q1,
                       size_t := size_t q1 + 1\<rparr>))"

definition t_emplace_back ::
  "'a env \<Rightarrow> 'a queue_trivial \<Rightarrow> error + (nat \<times> 'a queue_trivial)" where
  "t_emplace_back m q =
     (case t_should_reallocate m q of
        Inl e \<Rightarrow> Inl e
      | Inr q1 \<Rightarrow>
          if \<not> in_block (buffer_t q1) (back_t q1) \<or> capacity_t q1 = 0
          then Inl UndefinedBehaviour
          else Inr (nat (back_t q1),
                    q1\<lparr>back_t := (back_t q1 + 1) smod capacity_t q1,
                       size_t := size_t q1 + 1\<rparr>))"

definition t_front :: "'a queue_trivial \<Rightarrow> error + nat" where
  "t_front q =
     (if size_t q = 0 then Inl AssertionFailed
      else if in_block (buffer_t q) (front_t q) then Inr (nat (front_t q))
      else Inl UndefinedBehaviour)"

definition t_back :: "'a queue_trivial \<Rightarrow> error + nat" where
  "t_back q =
     (if size_t q = 0 then Inl AssertionFailed
      else if capacity_t q = 0 then Inl UndefinedBehaviour
      else let last = (back_t q + (size_t q - 1)) smod capacity_t q in
        if in_block (buffer_t q) last then Inr (nat last) else Inl UndefinedBehaviour)"

definition t_pop_deinit ::
  "('a option \<Rightarrow> 'a option) \<Rightarrow> 'a queue_trivial \<Rightarrow> error + 'a queue_trivial" where
  "t_pop_deinit deinit q =
     (if size_t q = 0 then Inl AssertionFailed
      else if \<not> in_block (buffer_t q) (front_t q) \<or> capacity_t q = 0
      then Inl UndefinedBehaviour
      else Inr (q\<lparr>buffer_t := (buffer_t q)[nat (front_t q) :=
                                  deinit (buffer_t q ! nat (front_t q))],
                  front_t := (front_t q + 1) smod capacity_t q,
                  size_t := size_t q - 1\<rparr>))"

definition t_pop :: "'a queue_trivial \<Rightarrow> error + 'a queue_trivial" where
  "t_pop q =
     (if size_t q = 0 then Inl AssertionFailed
      else if capacity_t q = 0 then Inl UndefinedBehaviour
      else Inr (q\<lparr>front_t := (front_t q + 1) smod capacity_t q,
                  size_t := size_t q - 1\<rparr>))"

definition t_size :: "'a queue_trivial \<Rightarrow> int" where
  "t_size q = size_t q"

definition t_empty :: "'a queue_trivial \<Rightarrow> bool" where
  "t_empty q \<longleftrightarrow> size_t q = 0"

definition t_index :: "'a queue_trivial \<Rightarrow> int \<Rightarrow> error + nat" where
  "t_index q i =
     (if \<not> (i \<ge> 0 \<and> i < size_t q) then Inl AssertionFailed
      else if capacity_t q = 0 then Inl UndefinedBehaviour
      else let index_rolling = (front_t q + i) smod capacity_t q in
        if in_block (buffer_t q) index_rolling then Inr (nat index_rolling)
        else Inl UndefinedBehaviour)"

definition t_deref :: "'a queue_trivial \<Rightarrow> error + nat \<Rightarrow> error + 'a option" where
  "t_deref q r = (case r of Inl e \<Rightarrow> Inl e | Inr slot \<Rightarrow> Inr (buffer_t q ! slot))"

datatype 'a queue_trivial_op =
    TPushBack "'a arg"
  | TEmplaceBackInit "'a option \<Rightarrow> 'a option"
  | TEmplaceBack
  | TPopDeinit "'a option \<Rightarrow> 'a option"
  | TPop
  | TClear

fun t_step ::
  "'a env \<Rightarrow> 'a queue_trivial \<Rightarrow> 'a queue_trivial_op \<Rightarrow> error + 'a queue_trivial" where
  "t_step m q (TPushBack x) = t_push_back m q x"
| "t_step m q (TEmplaceBackInit f) =
     (case t_emplace_back_init m f q of Inl e \<Rightarrow> Inl e | Inr (r, q1) \<Rightarrow> Inr q1)"
| "t_step m q TEmplaceBack =
     (case t_emplace_back m q of Inl e \<Rightarrow> Inl e | Inr (r, q1) \<Rightarrow> Inr q1)"
| "t_step m q (TPopDeinit f) = t_pop_deinit f q"
| "t_step m q TPop = t_pop q"
| "t_step m q TClear = Inr (t_clear q)"

fun t_run ::
  "'a env \<Rightarrow> 'a queue_trivial \<Rightarrow> 'a queue_trivial_op list \<Rightarrow> error + 'a queue_trivial" where
  "t_run m q [] = Inr q"
| "t_run m q (a # as) = (case t_step m q a of Inl e \<Rightarrow> Inl e | Inr q1 \<Rightarrow> t_run m q1 as)"

subsection \<open>Invariants and the logical content\<close>

text \<open>
  The representation invariant of the general variant: the block has \<^verbatim>\<open>capacity_\<close> slots,
  the handles are inside it, and \<^verbatim>\<open>back_\<close> is \<^verbatim>\<open>size_\<close> slots after \<^verbatim>\<open>front_\<close>, cyclically.
\<close>

definition q_wf :: "'a queue \<Rightarrow> bool" where
  "q_wf q \<longleftrightarrow>
     length (buffer_m q) = nat (capacity_m q) \<and>
     0 \<le> size_m q \<and> size_m q \<le> capacity_m q \<and>
     0 \<le> front_m q \<and> 0 \<le> back_m q \<and>
     (if capacity_m q = 0 then front_m q = 0 \<and> back_m q = 0
      else front_m q < capacity_m q \<and>
           back_m q = (front_m q + size_m q) mod capacity_m q)"

text \<open>The slots of the logical positions \<open>0, \<dots>, size - 1\<close>, read from the block.\<close>

definition contents :: "'a queue \<Rightarrow> 'a option list" where
  "contents q =
     map (\<lambda>i. buffer_m q ! nat ((front_m q + int i) mod capacity_m q)) [0..<nat (size_m q)]"

text \<open>
  For the trivial variant, \<open>t_safe\<close> holds after every sequence of calls, and \<open>t_wf\<close>
  after the sequences without \<^verbatim>\<open>clear()\<close>.
\<close>

definition t_safe :: "'a queue_trivial \<Rightarrow> bool" where
  "t_safe q \<longleftrightarrow>
     length (buffer_t q) = nat (capacity_t q) \<and>
     0 \<le> size_t q \<and> size_t q \<le> capacity_t q \<and>
     0 \<le> front_t q \<and> 0 \<le> back_t q \<and>
     (if capacity_t q = 0 then front_t q = 0 \<and> back_t q = 0
      else front_t q < capacity_t q \<and> back_t q < capacity_t q)"

definition t_wf :: "'a queue_trivial \<Rightarrow> bool" where
  "t_wf q \<longleftrightarrow>
     length (buffer_t q) = nat (capacity_t q) \<and>
     0 \<le> size_t q \<and> size_t q \<le> capacity_t q \<and>
     0 \<le> front_t q \<and> 0 \<le> back_t q \<and>
     (if capacity_t q = 0 then front_t q = 0 \<and> back_t q = 0
      else front_t q < capacity_t q \<and>
           back_t q = (front_t q + size_t q) mod capacity_t q)"

text \<open>The appends among the calls, and a result that is not an error.\<close>

fun is_append :: "'a queue_op \<Rightarrow> bool" where
  "is_append (PushBack x) = True"
| "is_append (PushBackMove x) = True"
| "is_append (EmplaceBack d) = True"
| "is_append Pop = False"
| "is_append Clear = False"

fun t_is_append :: "'a queue_trivial_op \<Rightarrow> bool" where
  "t_is_append (TPushBack x) = True"
| "t_is_append (TEmplaceBackInit f) = True"
| "t_is_append TEmplaceBack = True"
| "t_is_append (TPopDeinit f) = False"
| "t_is_append TPop = False"
| "t_is_append TClear = False"

definition completes :: "error + 'b \<Rightarrow> bool" where
  "completes r = (case r of Inl e \<Rightarrow> False | Inr v \<Rightarrow> True)"

text \<open>
  The appends whose argument is not a reference into the queue's own buffer, and the
  condition under which the growth of a full queue is granted: the doubled capacity fits
  \<^verbatim>\<open>INT_TYPE\<close> and the allocator returns a block.
\<close>

fun from_outside :: "'a queue_op \<Rightarrow> bool" where
  "from_outside (PushBack (Slot k)) = False"
| "from_outside (PushBackMove (Slot k)) = False"
| "from_outside a = True"

fun t_from_outside :: "'a queue_trivial_op \<Rightarrow> bool" where
  "t_from_outside (TPushBack (Slot k)) = False"
| "t_from_outside a = True"

definition granted :: "'a env \<Rightarrow> nat \<Rightarrow> int \<Rightarrow> bool" where
  "granted m k capacity \<longleftrightarrow>
     max 2 (2 * capacity) \<le> int_type_max m \<and> malloc_ok m k (nat (max 2 (2 * capacity)))"

section \<open>Auxiliary facts\<close>

subsection \<open>The growth check of the general variant\<close>

lemma smod_nonneg: "0 \<le> a \<Longrightarrow> 0 < b \<Longrightarrow> a smod b = a mod (b::int)"
  by (simp add: smod_int_alt_def sgn_if)

lemma move_loop_Inr:
  assumes "length old = nat sz" "0 \<le> fr" "0 \<le> i" "i \<le> sz" "nat sz \<le> length new"
  shows "\<exists>res. move_loop old fr sz i new = Inr res \<and> length res = length new \<and>
     (\<forall>j < length new. res ! j =
        (if nat i \<le> j \<and> j < nat sz then old ! nat ((fr + int j) mod sz) else new ! j))"
  using assms
proof (induction old fr sz i new rule: move_loop.induct)
  case (1 old fr sz i new)
  show ?case
  proof (cases "i < sz")
    case False
    with 1 have "i = sz" by simp
    then show ?thesis by (auto simp add: move_loop.simps [of old fr sz sz new])
  next
    case True
    then have sz: "sz \<noteq> 0" "0 < sz" using 1 by auto
    define k where "k = (fr + i) smod sz"
    have k: "k = (fr + i) mod sz" using 1 sz by (simp add: k_def smod_nonneg)
    have kb: "0 \<le> k" "k < sz" using sz by (simp_all add: k)
    have ib: "in_block old k \<and> in_block new i"
      using kb 1 True by (auto simp: in_block_def)
    let ?new = "new[nat i := old ! nat k]"
    have "\<exists>res. move_loop old fr sz (i + 1) ?new = Inr res \<and> length res = length ?new \<and>
     (\<forall>j < length ?new. res ! j =
        (if nat (i + 1) \<le> j \<and> j < nat sz then old ! nat ((fr + int j) mod sz) else ?new ! j))"
      using 1(2-) True sz ib by (intro 1(1) [OF True sz(1) k_def ib]) auto
    then obtain res where res: "move_loop old fr sz (i + 1) ?new = Inr res" "length res = length new"
      "\<And>j. j < length new \<Longrightarrow> res ! j =
        (if nat (i + 1) \<le> j \<and> j < nat sz then old ! nat ((fr + int j) mod sz) else ?new ! j)"
      by auto
    have step: "move_loop old fr sz i new = Inr res"
      using True sz ib res(1) by (subst move_loop.simps) (simp add: k_def Let_def)
    have "res ! j = (if nat i \<le> j \<and> j < nat sz then old ! nat ((fr + int j) mod sz) else new ! j)"
      if "j < length new" for j
    proof (cases "j = nat i")
      case True
      then have "int j = i" using 1 by simp
      then show ?thesis using res(3) [OF that] that True \<open>i < sz\<close> 1 k by (auto)
    next
      case False
      then show ?thesis using res(3) [OF that] that by (auto simp: nat_add_distrib)
    qed
    then show ?thesis using step res(2) by blast
  qed
qed

lemma should_reallocate_keep:
  "capacity_m q \<noteq> size_m q \<Longrightarrow> should_reallocate m q = Inr q"
  by (simp add: should_reallocate_def)

lemma capacity_new_max:
  "0 \<le> c \<Longrightarrow> (if c = 0 then 2 else c * 2) = max 2 (2 * (c::int))"
  by auto

lemma should_reallocate_overflow:
  assumes "q_wf q" "capacity_m q = size_m q" "int_type_max m < max 2 (2 * capacity_m q)"
  shows "should_reallocate m q = Inl CapacityOverflow"
proof -
  have "0 \<le> capacity_m q" using assms(1) by (simp add: q_wf_def)
  from capacity_new_max [OF this]
  have c: "(if capacity_m q = 0 then 2 else capacity_m q * 2) = max 2 (2 * capacity_m q)" .
  show ?thesis unfolding should_reallocate_def Let_def c using assms(2,3) by simp
qed

lemma should_reallocate_abort:
  assumes "q_wf q" "capacity_m q = size_m q" "max 2 (2 * capacity_m q) \<le> int_type_max m"
    "\<not> malloc_ok m (mallocs q) (nat (max 2 (2 * capacity_m q)))"
  shows "should_reallocate m q = Inl Aborted"
proof -
  have "0 \<le> capacity_m q" using assms(1) by (simp add: q_wf_def)
  from capacity_new_max [OF this]
  have c: "(if capacity_m q = 0 then 2 else capacity_m q * 2) = max 2 (2 * capacity_m q)" .
  have nl: "\<not> int_type_max m < max 2 (2 * capacity_m q)" using assms(3) by linarith
  show ?thesis unfolding should_reallocate_def Let_def c using assms(2,4) nl by simp
qed

lemma should_reallocate_grow:
  assumes "q_wf q" "capacity_m q = size_m q" "granted m (mallocs q) (capacity_m q)"
  shows "\<exists>b. should_reallocate m q =
           Inr (q\<lparr>buffer_m := b, capacity_m := max 2 (2 * capacity_m q),
                  front_m := 0, back_m := size_m q, mallocs := mallocs q + 1\<rparr>) \<and>
         length b = nat (max 2 (2 * capacity_m q)) \<and>
         (\<forall>j < nat (size_m q). b ! j = buffer_m q ! nat ((front_m q + int j) mod capacity_m q))"
proof -
  let ?c = "if capacity_m q = 0 then 2 else capacity_m q * 2"
  have "0 \<le> capacity_m q" using assms(1) by (simp add: q_wf_def)
  from capacity_new_max [OF this] have c: "?c = max 2 (2 * capacity_m q)" .
  have g: "\<not> int_type_max m < ?c" "malloc_ok m (mallocs q) (nat ?c)"
    using assms(3) unfolding c granted_def by (linarith, blast)
  have "\<exists>res. move_loop (buffer_m q) (front_m q) (size_m q) 0 (replicate (nat ?c) None) = Inr res \<and>
      length res = length (replicate (nat ?c) (None :: 'a option)) \<and>
     (\<forall>j < length (replicate (nat ?c) (None :: 'a option)). res ! j =
        (if nat 0 \<le> j \<and> j < nat (size_m q)
         then buffer_m q ! nat ((front_m q + int j) mod size_m q)
         else replicate (nat ?c) None ! j))"
    using assms(1,2) by (intro move_loop_Inr) (auto simp: q_wf_def)
  then obtain res where res:
    "move_loop (buffer_m q) (front_m q) (size_m q) 0 (replicate (nat ?c) None) = Inr res"
    "length res = nat ?c"
    "\<And>j. j < nat ?c \<Longrightarrow> res ! j =
        (if j < nat (size_m q)
         then buffer_m q ! nat ((front_m q + int j) mod size_m q)
         else replicate (nat ?c) None ! j)"
    by auto
  have lt: "nat (size_m q) \<le> nat ?c" using assms(1,2) by (auto simp: q_wf_def)
  have "should_reallocate m q =
           Inr (q\<lparr>buffer_m := res, capacity_m := ?c,
                  front_m := 0, back_m := size_m q, mallocs := mallocs q + 1\<rparr>)"
    using assms(2) res(1) g by (simp add: should_reallocate_def Let_def)
  then have "should_reallocate m q =
           Inr (q\<lparr>buffer_m := res, capacity_m := max 2 (2 * capacity_m q),
                  front_m := 0, back_m := size_m q, mallocs := mallocs q + 1\<rparr>)"
    by (simp only: c)
  moreover have "length res = nat (max 2 (2 * capacity_m q))" using res(2) by (simp only: c)
  moreover have "\<forall>j < nat (size_m q). res ! j = buffer_m q ! nat ((front_m q + int j) mod capacity_m q)"
    using res(3) lt assms(2) by auto
  ultimately show ?thesis by blast
qed

lemma should_reallocate_granted:
  assumes "q_wf q" "capacity_m q = size_m q" "should_reallocate m q = Inr q1"
  shows "granted m (mallocs q) (capacity_m q)"
proof (rule ccontr)
  assume n: "\<not> granted m (mallocs q) (capacity_m q)"
  show False
  proof (cases "int_type_max m < max 2 (2 * capacity_m q)")
    case True
    from should_reallocate_overflow [OF assms(1,2) True] assms(3) show False by simp
  next
    case False
    then have le: "max 2 (2 * capacity_m q) \<le> int_type_max m" by linarith
    with n have "\<not> malloc_ok m (mallocs q) (nat (max 2 (2 * capacity_m q)))"
      unfolding granted_def by blast
    from should_reallocate_abort [OF assms(1,2) le this] assms(3) show False by simp
  qed
qed

lemma q_wf_queue_new: "q_wf queue_new"
  by (simp add: q_wf_def queue_new_def)

lemma should_reallocate_wf:
  assumes "q_wf q" "should_reallocate m q = Inr q1"
  shows "q_wf q1 \<and> size_m q1 < capacity_m q1 \<and>
     size_m q1 = size_m q \<and> contents q1 = contents q \<and>
     constructed q1 = constructed q \<and> destroyed q1 = destroyed q \<and>
     capacity_m q1 = (if size_m q = capacity_m q then max 2 (2 * capacity_m q) else capacity_m q) \<and>
     mallocs q1 = (if size_m q = capacity_m q then mallocs q + 1 else mallocs q)"
proof (cases "capacity_m q = size_m q")
  case False
  then have "q1 = q" using assms(2) by (simp add: should_reallocate_keep)
  then show ?thesis using False assms(1) by (auto simp: q_wf_def)
next
  case True
  have g: "granted m (mallocs q) (capacity_m q)"
    using assms(1) True assms(2) by (rule should_reallocate_granted)
  from should_reallocate_grow [OF assms(1) True g] obtain b where b:
    "should_reallocate m q =
           Inr (q\<lparr>buffer_m := b, capacity_m := max 2 (2 * capacity_m q),
                  front_m := 0, back_m := size_m q, mallocs := mallocs q + 1\<rparr>)"
    "length b = nat (max 2 (2 * capacity_m q))"
    "\<And>j. j < nat (size_m q) \<Longrightarrow> b ! j = buffer_m q ! nat ((front_m q + int j) mod capacity_m q)"
    by blast
  let ?q1 = "q\<lparr>buffer_m := b, capacity_m := max 2 (2 * capacity_m q),
                  front_m := 0, back_m := size_m q, mallocs := mallocs q + 1\<rparr>"
  have eq: "q1 = ?q1" using assms(2) unfolding b(1) by (simp only: sum.inject)
  have sz: "0 \<le> size_m q" "size_m q < max 2 (2 * capacity_m q)"
    using assms(1) True by (auto simp: q_wf_def)
  have w: "q_wf ?q1" using assms(1) b(2) sz by (simp add: q_wf_def)
  have c: "contents ?q1 = contents q"
    using b(3) sz by (auto simp: contents_def)
  have e: "size_m q = capacity_m q" using True by (rule sym)
  show ?thesis unfolding eq using w c sz(2) e by simp
qed

lemma should_reallocate_returns:
  assumes "q_wf q" "capacity_m q = size_m q \<longrightarrow> granted m (mallocs q) (capacity_m q)"
  shows "\<exists>q1. should_reallocate m q = Inr q1"
proof (cases "capacity_m q = size_m q")
  case False
  then show ?thesis by (simp add: should_reallocate_keep)
next
  case True
  with assms(2) have "granted m (mallocs q) (capacity_m q)" by simp
  from should_reallocate_grow [OF assms(1) True this] show ?thesis by blast
qed

subsection \<open>The calls of the general variant\<close>

lemma cyclic_distinct:
  fixes f i s c :: int
  assumes "0 \<le> i" "i < s" "s < c"
  shows "(f + i) mod c \<noteq> (f + s) mod c"
proof
  assume "(f + i) mod c = (f + s) mod c"
  then have "c dvd (f + s) - (f + i)" by (metis mod_eq_dvd_iff)
  then have "c dvd s - i" by simp
  then show False using assms by (auto dest: zdvd_imp_le)
qed

lemma put_back:
  assumes "q_wf q1" "size_m q1 < capacity_m q1"
  shows "in_block (buffer_m q1) (back_m q1)" "capacity_m q1 \<noteq> 0"
    "length b = length (buffer_m q1) \<Longrightarrow>
     q_wf (q1\<lparr>buffer_m := b,
            back_m := (back_m q1 + 1) smod capacity_m q1,
            size_m := size_m q1 + 1\<rparr>)"
    "contents (q1\<lparr>buffer_m := (buffer_m q1)[nat (back_m q1) := v],
            back_m := (back_m q1 + 1) smod capacity_m q1,
            size_m := size_m q1 + 1\<rparr>) = contents q1 @ [v]"
proof -
  have c: "0 < capacity_m q1" "0 \<le> size_m q1" "0 \<le> front_m q1" "front_m q1 < capacity_m q1"
    and b: "back_m q1 = (front_m q1 + size_m q1) mod capacity_m q1"
    and l: "length (buffer_m q1) = nat (capacity_m q1)"
    using assms by (auto simp: q_wf_def split: if_splits)
  have bb: "0 \<le> back_m q1" "back_m q1 < capacity_m q1" using c by (simp_all add: b)
  show "in_block (buffer_m q1) (back_m q1)" using bb l by (simp add: in_block_def)
  show "capacity_m q1 \<noteq> 0" using c by simp
  have nb: "(back_m q1 + 1) smod capacity_m q1 = (front_m q1 + (size_m q1 + 1)) mod capacity_m q1"
    using bb c by (simp add: smod_nonneg b mod_add_left_eq add.assoc)
  show "q_wf (q1\<lparr>buffer_m := b,
            back_m := (back_m q1 + 1) smod capacity_m q1,
            size_m := size_m q1 + 1\<rparr>)" if "length b = length (buffer_m q1)"
    using c l assms(2) bb(1) that by (simp add: q_wf_def nb)
  have old: "(buffer_m q1)[nat (back_m q1) := v] ! nat ((front_m q1 + int i) mod capacity_m q1)
      = buffer_m q1 ! nat ((front_m q1 + int i) mod capacity_m q1)"
    if "i < nat (size_m q1)" for i
  proof -
    have "(front_m q1 + int i) mod capacity_m q1 \<noteq> back_m q1"
      unfolding b using that assms(2) by (intro cyclic_distinct) auto
    moreover have "0 \<le> (front_m q1 + int i) mod capacity_m q1" using c by simp
    ultimately have "nat ((front_m q1 + int i) mod capacity_m q1) \<noteq> nat (back_m q1)"
      using bb by (simp add: nat_eq_iff)
    then show ?thesis by simp
  qed
  have new: "(buffer_m q1)[nat (back_m q1) := v] ! nat ((front_m q1 + size_m q1) mod capacity_m q1) = v"
    using bb l b by simp
  have n: "nat (size_m q1 + 1) = Suc (nat (size_m q1))" using c by simp
  show "contents (q1\<lparr>buffer_m := (buffer_m q1)[nat (back_m q1) := v],
            back_m := (back_m q1 + 1) smod capacity_m q1,
            size_m := size_m q1 + 1\<rparr>) = contents q1 @ [v]"
    using old new c by (simp add: contents_def n)
qed

lemma q_wf_constructed: "q_wf (q\<lparr>constructed := n\<rparr>) = q_wf q"
  by (simp add: q_wf_def)

lemma contents_constructed: "contents (q\<lparr>constructed := n\<rparr>) = contents q"
  by (simp add: contents_def)

lemma push_back_cases:
  assumes "push_back m q a = Inr q'"
  obtains q1 v where "should_reallocate m q = Inr q1"
    "fetch (capacity_m q = size_m q) (buffer_m q1) a = Inr v"
    "q' = q1\<lparr>buffer_m := (buffer_m q1)[nat (back_m q1) := v],
             back_m := (back_m q1 + 1) smod capacity_m q1,
             size_m := size_m q1 + 1\<rparr>"
  using assms by (auto simp: push_back_def split: sum.splits if_splits)

lemma push_back_wf:
  assumes "q_wf q" "push_back m q a = Inr q'"
  shows "q_wf q' \<and> size_m q' = size_m q + 1 \<and>
     constructed q' = constructed q \<and> destroyed q' = destroyed q \<and>
     capacity_m q' = (if size_m q = capacity_m q then max 2 (2 * capacity_m q) else capacity_m q) \<and>
     mallocs q' = (if size_m q = capacity_m q then mallocs q + 1 else mallocs q) \<and>
     (\<forall>x. a = Outside x \<longrightarrow> contents q' = contents q @ [Some x])"
proof -
  from assms(2) obtain q1 v where q1: "should_reallocate m q = Inr q1"
    and v: "fetch (capacity_m q = size_m q) (buffer_m q1) a = Inr v"
    and q': "q' = q1\<lparr>buffer_m := (buffer_m q1)[nat (back_m q1) := v],
             back_m := (back_m q1 + 1) smod capacity_m q1,
             size_m := size_m q1 + 1\<rparr>"
    by (rule push_back_cases)
  note r = should_reallocate_wf [OF assms(1) q1]
  have w1: "q_wf q1" and lt: "size_m q1 < capacity_m q1" using r by simp_all
  have l: "length ((buffer_m q1)[nat (back_m q1) := v]) = length (buffer_m q1)" by simp
  have w: "q_wf q'" unfolding q' using l by (rule put_back(3) [OF w1 lt])
  have c: "contents q' = contents q1 @ [v]" unfolding q' by (rule put_back(4) [OF w1 lt])
  have "contents q' = contents q @ [Some x]" if "a = Outside x" for x
    using c v r that by simp
  then show ?thesis using w r by (simp add: q')
qed

lemma push_back_returns:
  assumes "q_wf q" "capacity_m q = size_m q \<longrightarrow> granted m (mallocs q) (capacity_m q)"
  shows "\<exists>q'. push_back m q (Outside x) = Inr q'"
proof -
  from should_reallocate_returns [OF assms] obtain q1 where q1: "should_reallocate m q = Inr q1"
    by blast
  note r = should_reallocate_wf [OF assms(1) q1]
  have w1: "q_wf q1" and lt: "size_m q1 < capacity_m q1" using r by simp_all
  show ?thesis using q1 put_back(1,2) [OF w1 lt] by (simp add: push_back_def)
qed

lemma push_back_move_outside: "push_back_move m q (Outside x) = push_back m q (Outside x)"
  by (simp add: push_back_move_def push_back_def split: sum.splits)

lemma push_back_move_cases:
  assumes "push_back_move m q a = Inr q'"
  obtains q1 b where "should_reallocate m q = Inr q1" "length b = length (buffer_m q1)"
    "q' = q1\<lparr>buffer_m := b,
             back_m := (back_m q1 + 1) smod capacity_m q1,
             size_m := size_m q1 + 1\<rparr>"
proof -
  from assms obtain q1 v where q1: "should_reallocate m q = Inr q1"
    and q': "q' = q1\<lparr>buffer_m :=
                 (case a of
                    Outside x \<Rightarrow> (buffer_m q1)[nat (back_m q1) := v]
                  | Slot k \<Rightarrow> (buffer_m q1)[nat (back_m q1) := v,
                                   k := moved_from m (buffer_m q1 ! k)]),
               back_m := (back_m q1 + 1) smod capacity_m q1,
               size_m := size_m q1 + 1\<rparr>"
    by (auto simp: push_back_move_def split: sum.splits if_splits)
  have "length (case a of
                    Outside x \<Rightarrow> (buffer_m q1)[nat (back_m q1) := v]
                  | Slot k \<Rightarrow> (buffer_m q1)[nat (back_m q1) := v,
                                   k := moved_from m (buffer_m q1 ! k)]) = length (buffer_m q1)"
    by (cases a) simp_all
  with q1 show thesis using q' by (rule that)
qed

lemma push_back_move_wf:
  assumes "q_wf q" "push_back_move m q a = Inr q'"
  shows "q_wf q' \<and> size_m q' = size_m q + 1 \<and>
     constructed q' = constructed q \<and> destroyed q' = destroyed q \<and>
     capacity_m q' = (if size_m q = capacity_m q then max 2 (2 * capacity_m q) else capacity_m q) \<and>
     mallocs q' = (if size_m q = capacity_m q then mallocs q + 1 else mallocs q)"
proof -
  from assms(2) obtain q1 b where q1: "should_reallocate m q = Inr q1"
    and l: "length b = length (buffer_m q1)"
    and q': "q' = q1\<lparr>buffer_m := b,
             back_m := (back_m q1 + 1) smod capacity_m q1,
             size_m := size_m q1 + 1\<rparr>"
    by (rule push_back_move_cases)
  note r = should_reallocate_wf [OF assms(1) q1]
  have w1: "q_wf q1" and lt: "size_m q1 < capacity_m q1" using r by simp_all
  have w: "q_wf q'" unfolding q' using l by (rule put_back(3) [OF w1 lt])
  show ?thesis using w r by (simp add: q')
qed

lemma emplace_back_cases:
  assumes "emplace_back m d q = Inr (r, q')"
  obtains q1 where "should_reallocate m q = Inr q1"
    "q' = q1\<lparr>buffer_m := (buffer_m q1)[nat (back_m q1) := Some d],
             back_m := (back_m q1 + 1) smod capacity_m q1,
             size_m := size_m q1 + 1,
             constructed := constructed q1 + 1\<rparr>"
  using assms by (auto simp: emplace_back_def split: sum.splits if_splits)

lemma emplace_back_wf:
  assumes "q_wf q" "emplace_back m d q = Inr (r, q')"
  shows "q_wf q' \<and> size_m q' = size_m q + 1 \<and> contents q' = contents q @ [Some d] \<and>
     constructed q' = constructed q + 1 \<and> destroyed q' = destroyed q \<and>
     capacity_m q' = (if size_m q = capacity_m q then max 2 (2 * capacity_m q) else capacity_m q) \<and>
     mallocs q' = (if size_m q = capacity_m q then mallocs q + 1 else mallocs q)"
proof -
  from assms(2) obtain q1 where q1: "should_reallocate m q = Inr q1"
    and q': "q' = q1\<lparr>buffer_m := (buffer_m q1)[nat (back_m q1) := Some d],
             back_m := (back_m q1 + 1) smod capacity_m q1,
             size_m := size_m q1 + 1,
             constructed := constructed q1 + 1\<rparr>"
    by (rule emplace_back_cases)
  note s = should_reallocate_wf [OF assms(1) q1]
  have w1: "q_wf q1" and lt: "size_m q1 < capacity_m q1" using s by simp_all
  have l: "length ((buffer_m q1)[nat (back_m q1) := Some d]) = length (buffer_m q1)" by simp
  have w: "q_wf q'" unfolding q' q_wf_constructed using l by (rule put_back(3) [OF w1 lt])
  have c: "contents q' = contents q1 @ [Some d]"
    unfolding q' contents_constructed by (rule put_back(4) [OF w1 lt])
  show ?thesis using w c s by (simp add: q')
qed

lemma emplace_back_returns:
  assumes "q_wf q" "capacity_m q = size_m q \<longrightarrow> granted m (mallocs q) (capacity_m q)"
  shows "\<exists>r q'. emplace_back m d q = Inr (r, q')"
proof -
  from should_reallocate_returns [OF assms] obtain q1 where q1: "should_reallocate m q = Inr q1"
    by blast
  note r = should_reallocate_wf [OF assms(1) q1]
  have w1: "q_wf q1" and lt: "size_m q1 < capacity_m q1" using r by simp_all
  show ?thesis using q1 put_back(1,2) [OF w1 lt] by (simp add: emplace_back_def)
qed

lemma pop_wf:
  assumes "q_wf q" "size_m q \<noteq> 0"
  shows "\<exists>q'. pop q = Inr q' \<and> q_wf q' \<and> size_m q' = size_m q - 1 \<and>
     capacity_m q' = capacity_m q \<and> mallocs q' = mallocs q \<and>
     constructed q' = constructed q \<and> destroyed q' = destroyed q + 1"
proof -
  have c: "0 < capacity_m q" "0 < size_m q" "0 \<le> front_m q" "front_m q < capacity_m q"
    and b: "back_m q = (front_m q + size_m q) mod capacity_m q"
    and l: "length (buffer_m q) = nat (capacity_m q)"
    using assms by (auto simp: q_wf_def split: if_splits)
  have f: "(front_m q + 1) smod capacity_m q = (front_m q + 1) mod capacity_m q"
    using c by (simp add: smod_nonneg)
  have "((front_m q + 1) mod capacity_m q + (size_m q - 1)) mod capacity_m q
      = (front_m q + size_m q) mod capacity_m q"
    by (simp add: mod_add_left_eq)
  then show ?thesis
    using c b l assms by (simp add: pop_def in_block_def q_wf_def f)
qed

lemma clear_loop_wf:
  "q_wf q \<Longrightarrow> \<exists>q'. clear_loop q = Inr q' \<and> q_wf q' \<and> size_m q' = 0 \<and>
     capacity_m q' = capacity_m q \<and> mallocs q' = mallocs q \<and> constructed q' = constructed q \<and>
     int (destroyed q') = int (destroyed q) + size_m q"
proof (induction q rule: clear_loop.induct)
  case (1 q)
  show ?case
  proof (cases "size_m q > 0")
    case False
    then show ?thesis using 1(2) by (subst clear_loop.simps) (simp add: q_wf_def)
  next
    case True
    then obtain q1 where q1: "pop q = Inr q1" "q_wf q1" "size_m q1 = size_m q - 1"
      "capacity_m q1 = capacity_m q" "mallocs q1 = mallocs q"
      "constructed q1 = constructed q" "destroyed q1 = destroyed q + 1"
      using pop_wf [OF 1(2)] by auto
    from 1(1) [OF True q1(1) q1(2)] obtain q' where
      "clear_loop q1 = Inr q'" "q_wf q'" "size_m q' = 0" "capacity_m q' = capacity_m q1"
      "mallocs q' = mallocs q1" "constructed q' = constructed q1"
      "int (destroyed q') = int (destroyed q1) + size_m q1"
      by blast
    then show ?thesis using True q1 by (subst clear_loop.simps) simp
  qed
qed

lemma clear_wf:
  assumes "q_wf q"
  shows "\<exists>q'. clear q = Inr q' \<and> q_wf q' \<and> size_m q' = 0 \<and> front_m q' = 0 \<and> back_m q' = 0 \<and>
     capacity_m q' = capacity_m q \<and> mallocs q' = mallocs q \<and> constructed q' = constructed q \<and>
     int (destroyed q') = int (destroyed q) + size_m q"
proof -
  from clear_loop_wf [OF assms] obtain q1 where q1: "clear_loop q = Inr q1" "q_wf q1" "size_m q1 = 0"
    "capacity_m q1 = capacity_m q" "mallocs q1 = mallocs q" "constructed q1 = constructed q"
     "int (destroyed q1) = int (destroyed q) + size_m q" by blast
  have "q_wf (q1\<lparr>front_m := 0, back_m := 0\<rparr>)" using q1(2,3) by (simp add: q_wf_def)
  then show ?thesis using q1 by (simp add: clear_def)
qed

lemma append_step_law:
  assumes "q_wf q" "is_append a" "step m q a = Inr q'"
  shows "q_wf q' \<and>
     capacity_m q' = (if size_m q = capacity_m q then max 2 (2 * capacity_m q) else capacity_m q) \<and>
     mallocs q' = (if size_m q = capacity_m q then mallocs q + 1 else mallocs q)"
proof (cases a)
  case (PushBack x)
  then show ?thesis using push_back_wf [OF assms(1), of m x q'] assms(3) by simp
next
  case (PushBackMove x)
  then show ?thesis using push_back_move_wf [OF assms(1), of m x q'] assms(3) by simp
next
  case (EmplaceBack d)
  with assms(3) obtain r where "emplace_back m d q = Inr (r, q')"
    by (auto split: sum.splits)
  from emplace_back_wf [OF assms(1) this] show ?thesis by simp
next
  case Pop
  then show ?thesis using assms(2) by simp
next
  case Clear
  then show ?thesis using assms(2) by simp
qed

lemma append_step_error:
  assumes "is_append a" "should_reallocate m q = Inl e"
  shows "step m q a = Inl e"
  using assms by (cases a) (simp_all add: push_back_def push_back_move_def emplace_back_def)

lemma append_step_returns:
  assumes "q_wf q" "is_append a" "from_outside a"
    "capacity_m q = size_m q \<longrightarrow> granted m (mallocs q) (capacity_m q)"
  shows "completes (step m q a)"
proof (cases a)
  case (PushBack x)
  then obtain v where "x = Outside v" using assms(3) by (cases x) simp_all
  then show ?thesis using push_back_returns [OF assms(1,4), of v] PushBack
    by (auto simp: completes_def)
next
  case (PushBackMove x)
  then obtain v where "x = Outside v" using assms(3) by (cases x) simp_all
  then show ?thesis using push_back_returns [OF assms(1,4), of v] PushBackMove
    by (auto simp: completes_def push_back_move_outside)
next
  case (EmplaceBack d)
  then show ?thesis using emplace_back_returns [OF assms(1,4), of d]
    by (auto simp: completes_def)
next
  case Pop
  then show ?thesis using assms(2) by simp
next
  case Clear
  then show ?thesis using assms(2) by simp
qed

lemma step_wf:
  assumes "q_wf q" "step m q a = Inr q'"
  shows "q_wf q' \<and> capacity_m q \<le> capacity_m q'"
proof (cases "is_append a")
  case True
  have "0 \<le> capacity_m q" using assms(1) by (simp add: q_wf_def)
  then show ?thesis using append_step_law [OF assms(1) True assms(2)] by auto
next
  case False
  then consider "a = Pop" | "a = Clear" by (cases a) simp_all
  then show ?thesis
  proof cases
    case 1
    then have "size_m q \<noteq> 0" using assms(2) by (auto simp: pop_def split: if_splits)
    then show ?thesis using pop_wf [OF assms(1)] 1 assms(2) by auto
  next
    case 2
    then show ?thesis using clear_wf [OF assms(1)] assms(2) by auto
  qed
qed

lemma run_wf:
  "q_wf q \<Longrightarrow> run m q as = Inr q' \<Longrightarrow> q_wf q' \<and> capacity_m q \<le> capacity_m q'"
proof (induction as arbitrary: q)
  case Nil
  then show ?case by simp
next
  case (Cons a as)
  then obtain q1 where q1: "step m q a = Inr q1" "run m q1 as = Inr q'"
    by (auto split: sum.splits)
  from step_wf [OF Cons.prems(1) q1(1)] have "q_wf q1" "capacity_m q \<le> capacity_m q1" by simp_all
  moreover from Cons.IH [OF \<open>q_wf q1\<close> q1(2)] have "q_wf q'" "capacity_m q1 \<le> capacity_m q'" by simp_all
  ultimately show ?case by simp
qed

subsection \<open>The trivial variant\<close>

lemma t_wf_safe: "t_wf q \<Longrightarrow> t_safe q"
  by (auto simp: t_wf_def t_safe_def split: if_splits)

lemma t_should_reallocate_keep:
  "capacity_t q \<noteq> size_t q \<Longrightarrow> t_should_reallocate m q = Inr q"
  by (simp add: t_should_reallocate_def)

lemma t_should_reallocate_overflow:
  assumes "t_safe q" "capacity_t q = size_t q" "int_type_max m < max 2 (2 * capacity_t q)"
  shows "t_should_reallocate m q = Inl CapacityOverflow"
proof -
  have "0 \<le> capacity_t q" using assms(1) by (simp add: t_safe_def)
  from capacity_new_max [OF this]
  have c: "(if capacity_t q = 0 then 2 else capacity_t q * 2) = max 2 (2 * capacity_t q)" .
  show ?thesis unfolding t_should_reallocate_def Let_def c using assms(2,3) by simp
qed

lemma t_should_reallocate_abort:
  assumes "t_safe q" "capacity_t q = size_t q" "max 2 (2 * capacity_t q) \<le> int_type_max m"
    "\<not> malloc_ok m (mallocs_t q) (nat (max 2 (2 * capacity_t q)))"
  shows "t_should_reallocate m q = Inl Aborted"
proof -
  have "0 \<le> capacity_t q" using assms(1) by (simp add: t_safe_def)
  from capacity_new_max [OF this]
  have c: "(if capacity_t q = 0 then 2 else capacity_t q * 2) = max 2 (2 * capacity_t q)" .
  have nl: "\<not> int_type_max m < max 2 (2 * capacity_t q)" using assms(3) by linarith
  show ?thesis unfolding t_should_reallocate_def Let_def c using assms(2,4) nl by simp
qed

lemma t_should_reallocate_grow:
  assumes "t_safe q" "capacity_t q = size_t q" "granted m (mallocs_t q) (capacity_t q)"
  shows "t_should_reallocate m q =
           Inr (q\<lparr>buffer_t := take (nat (size_t q)) (buffer_t q) @
                              replicate (nat (max 2 (2 * capacity_t q)) - nat (size_t q)) None,
                  capacity_t := max 2 (2 * capacity_t q),
                  front_t := 0, back_t := size_t q, mallocs_t := mallocs_t q + 1\<rparr>)"
proof -
  let ?c = "if capacity_t q = 0 then 2 else capacity_t q * 2"
  have "0 \<le> capacity_t q" using assms(1) by (simp add: t_safe_def)
  from capacity_new_max [OF this] have c: "?c = max 2 (2 * capacity_t q)" .
  have g: "\<not> int_type_max m < ?c" "malloc_ok m (mallocs_t q) (nat ?c)"
    using assms(3) unfolding c granted_def by (linarith, blast)
  have s: "0 \<le> size_t q" "size_t q \<le> int (length (buffer_t q))" "size_t q \<le> ?c"
    using assms(1,2) by (auto simp: t_safe_def)
  have "memcpy (replicate (nat ?c) None) (buffer_t q) (size_t q) =
      Inr (take (nat (size_t q)) (buffer_t q) @ replicate (nat ?c - nat (size_t q)) None)"
    using s by (simp add: memcpy_def)
  then have "t_should_reallocate m q =
           Inr (q\<lparr>buffer_t := take (nat (size_t q)) (buffer_t q) @
                              replicate (nat ?c - nat (size_t q)) None,
                  capacity_t := ?c,
                  front_t := 0, back_t := size_t q, mallocs_t := mallocs_t q + 1\<rparr>)"
    using assms(2) g by (simp add: t_should_reallocate_def Let_def)
  then show ?thesis by (simp only: c)
qed

lemma t_should_reallocate_granted:
  assumes "t_safe q" "capacity_t q = size_t q" "t_should_reallocate m q = Inr q1"
  shows "granted m (mallocs_t q) (capacity_t q)"
proof (rule ccontr)
  assume n: "\<not> granted m (mallocs_t q) (capacity_t q)"
  show False
  proof (cases "int_type_max m < max 2 (2 * capacity_t q)")
    case True
    from t_should_reallocate_overflow [OF assms(1,2) True] assms(3) show False by simp
  next
    case False
    then have le: "max 2 (2 * capacity_t q) \<le> int_type_max m" by linarith
    with n have "\<not> malloc_ok m (mallocs_t q) (nat (max 2 (2 * capacity_t q)))"
      unfolding granted_def by blast
    from t_should_reallocate_abort [OF assms(1,2) le this] assms(3) show False by simp
  qed
qed

lemma t_should_reallocate_safe:
  assumes "t_safe q" "t_should_reallocate m q = Inr q1"
  shows "t_safe q1 \<and> size_t q1 < capacity_t q1 \<and>
     size_t q1 = size_t q \<and> (t_wf q \<longrightarrow> t_wf q1) \<and>
     (front_t q = 0 \<longrightarrow> front_t q1 = 0 \<and>
        take (nat (size_t q)) (buffer_t q1) = take (nat (size_t q)) (buffer_t q)) \<and>
     capacity_t q1 = (if size_t q = capacity_t q then max 2 (2 * capacity_t q) else capacity_t q) \<and>
     mallocs_t q1 = (if size_t q = capacity_t q then mallocs_t q + 1 else mallocs_t q)"
proof (cases "capacity_t q = size_t q")
  case False
  then have "q1 = q" using assms(2) by (simp add: t_should_reallocate_keep)
  then show ?thesis using False assms(1) by (auto simp: t_safe_def)
next
  case True
  have g: "granted m (mallocs_t q) (capacity_t q)"
    using assms(1) True assms(2) by (rule t_should_reallocate_granted)
  let ?b = "take (nat (size_t q)) (buffer_t q) @
              replicate (nat (max 2 (2 * capacity_t q)) - nat (size_t q)) None"
  let ?q1 = "q\<lparr>buffer_t := ?b, capacity_t := max 2 (2 * capacity_t q),
                  front_t := 0, back_t := size_t q, mallocs_t := mallocs_t q + 1\<rparr>"
  have eq: "q1 = ?q1"
    using assms(2) unfolding t_should_reallocate_grow [OF assms(1) True g]
    by (simp only: sum.inject)
  have sz: "0 \<le> size_t q" "size_t q < max 2 (2 * capacity_t q)"
    "nat (size_t q) \<le> length (buffer_t q)"
    using assms(1) True by (auto simp: t_safe_def)
  have len: "length ?b = nat (max 2 (2 * capacity_t q))" using sz by auto
  have w: "t_wf ?q1" using sz len by (simp add: t_wf_def)
  have t: "take (nat (size_t q)) ?b = take (nat (size_t q)) (buffer_t q)"
    using sz by simp
  have e: "size_t q = capacity_t q" using True by (rule sym)
  show ?thesis unfolding eq using w t sz(2) e t_wf_safe [OF w] by simp
qed

lemma t_should_reallocate_returns:
  assumes "t_safe q" "capacity_t q = size_t q \<longrightarrow> granted m (mallocs_t q) (capacity_t q)"
  shows "\<exists>q1. t_should_reallocate m q = Inr q1"
proof (cases "capacity_t q = size_t q")
  case False
  then show ?thesis by (simp add: t_should_reallocate_keep)
next
  case True
  with assms(2) have "granted m (mallocs_t q) (capacity_t q)" by simp
  from t_should_reallocate_grow [OF assms(1) True this] show ?thesis by blast
qed

lemma t_put_back:
  assumes "t_safe q1" "size_t q1 < capacity_t q1" "length b = length (buffer_t q1)"
  shows "in_block (buffer_t q1) (back_t q1)" "capacity_t q1 \<noteq> 0"
    "t_safe (q1\<lparr>buffer_t := b, back_t := (back_t q1 + 1) smod capacity_t q1,
                size_t := size_t q1 + 1\<rparr>)"
    "t_wf q1 \<Longrightarrow> t_wf (q1\<lparr>buffer_t := b, back_t := (back_t q1 + 1) smod capacity_t q1,
                size_t := size_t q1 + 1\<rparr>)"
proof -
  have c: "0 < capacity_t q1" "0 \<le> size_t q1" "0 \<le> front_t q1" "front_t q1 < capacity_t q1"
      "0 \<le> back_t q1" "back_t q1 < capacity_t q1"
    and l: "length (buffer_t q1) = nat (capacity_t q1)"
    using assms by (auto simp: t_safe_def split: if_splits)
  show "in_block (buffer_t q1) (back_t q1)" using c l by (simp add: in_block_def)
  show "capacity_t q1 \<noteq> 0" using c by simp
  have nb: "(back_t q1 + 1) smod capacity_t q1 = (back_t q1 + 1) mod capacity_t q1"
    using c by (simp add: smod_nonneg)
  show "t_safe (q1\<lparr>buffer_t := b, back_t := (back_t q1 + 1) smod capacity_t q1,
                size_t := size_t q1 + 1\<rparr>)"
    using c l assms(2,3) by (simp add: t_safe_def nb)
  assume "t_wf q1"
  then have b: "back_t q1 = (front_t q1 + size_t q1) mod capacity_t q1"
    using c by (simp add: t_wf_def)
  have "(back_t q1 + 1) mod capacity_t q1 = (front_t q1 + (size_t q1 + 1)) mod capacity_t q1"
    by (simp add: b mod_add_left_eq add.assoc)
  then show "t_wf (q1\<lparr>buffer_t := b, back_t := (back_t q1 + 1) smod capacity_t q1,
                size_t := size_t q1 + 1\<rparr>)"
    using c l assms(2,3) by (simp add: t_wf_def nb)
qed

text \<open>Every append of the trivial variant: the growth check, then a block of the same length.\<close>

lemma t_append_cases:
  assumes "t_is_append a" "t_step m q a = Inr q'"
  obtains q1 b where "t_should_reallocate m q = Inr q1" "length b = length (buffer_t q1)"
    "q' = q1\<lparr>buffer_t := b,
             back_t := (back_t q1 + 1) smod capacity_t q1,
             size_t := size_t q1 + 1\<rparr>"
proof (cases a)
  case (TPushBack x)
  with assms(2) obtain q1 v where q1: "t_should_reallocate m q = Inr q1"
    and q': "q' = q1\<lparr>buffer_t := (buffer_t q1)[nat (back_t q1) := v],
             back_t := (back_t q1 + 1) smod capacity_t q1,
             size_t := size_t q1 + 1\<rparr>"
    by (auto simp: t_push_back_def split: sum.splits if_splits)
  have "length ((buffer_t q1)[nat (back_t q1) := v]) = length (buffer_t q1)" by simp
  with q1 show thesis using q' by (rule that)
next
  case (TEmplaceBackInit f)
  with assms(2) obtain q1 where q1: "t_should_reallocate m q = Inr q1"
    and q': "q' = q1\<lparr>buffer_t := (buffer_t q1)[nat (back_t q1) := f (buffer_t q1 ! nat (back_t q1))],
             back_t := (back_t q1 + 1) smod capacity_t q1,
             size_t := size_t q1 + 1\<rparr>"
    by (auto simp: t_emplace_back_init_def split: sum.splits if_splits)
  have "length ((buffer_t q1)[nat (back_t q1) := f (buffer_t q1 ! nat (back_t q1))])
      = length (buffer_t q1)" by simp
  with q1 show thesis using q' by (rule that)
next
  case TEmplaceBack
  with assms(2) obtain q1 where q1: "t_should_reallocate m q = Inr q1"
    and q': "q' = q1\<lparr>back_t := (back_t q1 + 1) smod capacity_t q1,
             size_t := size_t q1 + 1\<rparr>"
    by (auto simp: t_emplace_back_def split: sum.splits if_splits)
  have "q' = q1\<lparr>buffer_t := buffer_t q1, back_t := (back_t q1 + 1) smod capacity_t q1,
             size_t := size_t q1 + 1\<rparr>" using q' by simp
  with q1 refl show thesis by (rule that)
next
  case (TPopDeinit f)
  then show ?thesis using assms(1) by simp
next
  case TPop
  then show ?thesis using assms(1) by simp
next
  case TClear
  then show ?thesis using assms(1) by simp
qed

lemma t_append_step_law:
  assumes "t_safe q" "t_is_append a" "t_step m q a = Inr q'"
  shows "t_safe q' \<and> (t_wf q \<longrightarrow> t_wf q') \<and> size_t q' = size_t q + 1 \<and>
     capacity_t q' = (if size_t q = capacity_t q then max 2 (2 * capacity_t q) else capacity_t q) \<and>
     mallocs_t q' = (if size_t q = capacity_t q then mallocs_t q + 1 else mallocs_t q)"
proof -
  from assms(2,3) obtain q1 b where q1: "t_should_reallocate m q = Inr q1"
    and l: "length b = length (buffer_t q1)"
    and q': "q' = q1\<lparr>buffer_t := b,
             back_t := (back_t q1 + 1) smod capacity_t q1,
             size_t := size_t q1 + 1\<rparr>"
    by (rule t_append_cases)
  note r = t_should_reallocate_safe [OF assms(1) q1]
  have s1: "t_safe q1" and lt: "size_t q1 < capacity_t q1" using r by simp_all
  note pb = t_put_back(3,4) [OF s1 lt l]
  have "t_safe q'" unfolding q' by (rule pb(1))
  moreover have "t_wf q'" if "t_wf q"
  proof -
    from that r have "t_wf q1" by simp
    then show ?thesis unfolding q' by (rule pb(2))
  qed
  ultimately show ?thesis using r by (simp add: q')
qed

lemma t_append_step_error:
  assumes "t_is_append a" "t_should_reallocate m q = Inl e"
  shows "t_step m q a = Inl e"
  using assms
  by (cases a) (simp_all add: t_push_back_def t_emplace_back_init_def t_emplace_back_def)

lemma t_append_step_returns:
  assumes "t_safe q" "t_is_append a" "t_from_outside a"
    "capacity_t q = size_t q \<longrightarrow> granted m (mallocs_t q) (capacity_t q)"
  shows "completes (t_step m q a)"
proof -
  from t_should_reallocate_returns [OF assms(1,4)] obtain q1 where
    q1: "t_should_reallocate m q = Inr q1" by blast
  note r = t_should_reallocate_safe [OF assms(1) q1]
  have s1: "t_safe q1" and lt: "size_t q1 < capacity_t q1" using r by simp_all
  note pb = t_put_back(1,2) [OF s1 lt refl]
  show ?thesis
  proof (cases a)
    case (TPushBack x)
    then obtain v where "x = Outside v" using assms(3) by (cases x) simp_all
    then show ?thesis using TPushBack q1 pb by (simp add: t_push_back_def completes_def)
  next
    case (TEmplaceBackInit f)
    then show ?thesis using q1 pb by (simp add: t_emplace_back_init_def completes_def)
  next
    case TEmplaceBack
    then show ?thesis using q1 pb by (simp add: t_emplace_back_def completes_def)
  next
    case (TPopDeinit f)
    then show ?thesis using assms(2) by simp
  next
    case TPop
    then show ?thesis using assms(2) by simp
  next
    case TClear
    then show ?thesis using assms(2) by simp
  qed
qed

lemma t_pop_deinit_safe:
  assumes "t_safe q" "size_t q \<noteq> 0"
  shows "\<exists>q'. t_pop_deinit f q = Inr q' \<and> t_safe q' \<and> (t_wf q \<longrightarrow> t_wf q') \<and>
     capacity_t q' = capacity_t q"
proof -
  have c: "0 < capacity_t q" "0 < size_t q" "0 \<le> front_t q" "front_t q < capacity_t q"
      "0 \<le> back_t q" "back_t q < capacity_t q"
    and l: "length (buffer_t q) = nat (capacity_t q)"
    using assms by (auto simp: t_safe_def split: if_splits)
  have f: "(front_t q + 1) smod capacity_t q = (front_t q + 1) mod capacity_t q"
    using c by (simp add: smod_nonneg)
  have m: "((front_t q + 1) mod capacity_t q + (size_t q - 1)) mod capacity_t q
      = (front_t q + size_t q) mod capacity_t q"
    by (simp add: mod_add_left_eq)
  have "t_safe (q\<lparr>buffer_t := (buffer_t q)[nat (front_t q) := f (buffer_t q ! nat (front_t q))],
                  front_t := (front_t q + 1) smod capacity_t q,
                  size_t := size_t q - 1\<rparr>)"
    using c l assms by (simp add: t_safe_def f)
  moreover have "t_wf (q\<lparr>buffer_t := (buffer_t q)[nat (front_t q) := f (buffer_t q ! nat (front_t q))],
                  front_t := (front_t q + 1) smod capacity_t q,
                  size_t := size_t q - 1\<rparr>)" if "t_wf q"
    using c l that m by (simp add: t_wf_def f)
  ultimately show ?thesis
    using c l assms by (simp add: t_pop_deinit_def in_block_def)
qed

lemma t_pop_safe:
  assumes "t_safe q" "size_t q \<noteq> 0"
  shows "\<exists>q'. t_pop q = Inr q' \<and> t_safe q' \<and> (t_wf q \<longrightarrow> t_wf q') \<and>
     capacity_t q' = capacity_t q"
proof -
  have c: "0 < capacity_t q" "0 < size_t q" "0 \<le> front_t q" "front_t q < capacity_t q"
      "0 \<le> back_t q" "back_t q < capacity_t q"
    and l: "length (buffer_t q) = nat (capacity_t q)"
    using assms by (auto simp: t_safe_def split: if_splits)
  have f: "(front_t q + 1) smod capacity_t q = (front_t q + 1) mod capacity_t q"
    using c by (simp add: smod_nonneg)
  have m: "((front_t q + 1) mod capacity_t q + (size_t q - 1)) mod capacity_t q
      = (front_t q + size_t q) mod capacity_t q"
    by (simp add: mod_add_left_eq)
  have "t_safe (q\<lparr>front_t := (front_t q + 1) smod capacity_t q, size_t := size_t q - 1\<rparr>)"
    using c l assms by (simp add: t_safe_def f)
  moreover have "t_wf (q\<lparr>front_t := (front_t q + 1) smod capacity_t q, size_t := size_t q - 1\<rparr>)"
    if "t_wf q"
    using c l that m by (simp add: t_wf_def f)
  ultimately show ?thesis
    using c l assms by (simp add: t_pop_def)
qed

lemma t_clear_safe: "t_safe q \<Longrightarrow> t_safe (t_clear q) \<and> capacity_t (t_clear q) = capacity_t q"
  by (auto simp: t_safe_def t_clear_def)

lemma t_step_safe:
  assumes "t_safe q" "t_step m q a = Inr q'"
  shows "t_safe q' \<and> capacity_t q \<le> capacity_t q' \<and> (t_wf q \<and> a \<noteq> TClear \<longrightarrow> t_wf q')"
proof (cases "t_is_append a")
  case True
  have "0 \<le> capacity_t q" using assms(1) by (simp add: t_safe_def)
  then show ?thesis using t_append_step_law [OF assms(1) True assms(2)] by auto
next
  case False
  then consider f where "a = TPopDeinit f" | "a = TPop" | "a = TClear" by (cases a) simp_all
  then show ?thesis
  proof cases
    case 1
    then have "size_t q \<noteq> 0" using assms(2) by (auto simp: t_pop_deinit_def split: if_splits)
    then show ?thesis using t_pop_deinit_safe [OF assms(1), of f] 1 assms(2) by auto
  next
    case 2
    then have "size_t q \<noteq> 0" using assms(2) by (auto simp: t_pop_def split: if_splits)
    then show ?thesis using t_pop_safe [OF assms(1)] 2 assms(2) by auto
  next
    case 3
    then show ?thesis using t_clear_safe [OF assms(1)] assms(2) by auto
  qed
qed

lemma t_run_safe:
  "t_safe q \<Longrightarrow> t_run m q as = Inr q' \<Longrightarrow>
     t_safe q' \<and> capacity_t q \<le> capacity_t q' \<and> (t_wf q \<and> TClear \<notin> set as \<longrightarrow> t_wf q')"
proof (induction as arbitrary: q)
  case Nil
  then show ?case by simp
next
  case (Cons a as)
  then obtain q1 where q1: "t_step m q a = Inr q1" "t_run m q1 as = Inr q'"
    by (auto split: sum.splits)
  from t_step_safe [OF Cons.prems(1) q1(1)]
  have 1: "t_safe q1" "capacity_t q \<le> capacity_t q1" "t_wf q \<and> a \<noteq> TClear \<longrightarrow> t_wf q1"
    by simp_all
  from Cons.IH [OF 1(1) q1(2)]
  have 2: "t_safe q'" "capacity_t q1 \<le> capacity_t q'" "t_wf q1 \<and> TClear \<notin> set as \<longrightarrow> t_wf q'"
    by simp_all
  show ?case using 1 2 by auto
qed

lemma t_wf_new: "t_wf queue_trivial_new"
  by (simp add: t_wf_def queue_trivial_new_def)

subsection \<open>Reachable states, references and runs of appends\<close>

lemma run_new_wf: "run m queue_new ops = Inr q \<Longrightarrow> q_wf q"
  using run_wf [OF q_wf_queue_new] by blast

lemma t_run_new_safe: "t_run m queue_trivial_new ops = Inr q \<Longrightarrow> t_safe q"
  using t_run_safe [OF t_wf_safe [OF t_wf_new]] by blast

lemma t_run_new_wf:
  "TClear \<notin> set ops \<Longrightarrow> t_run m queue_trivial_new ops = Inr q \<Longrightarrow> t_wf q"
  using t_run_safe [OF t_wf_safe [OF t_wf_new]] t_wf_new by blast

lemma index_wf:
  assumes "q_wf q" "0 \<le> i" "i < size_m q"
  shows "index q i = Inr (nat ((front_m q + i) mod capacity_m q))"
proof -
  have c: "0 < capacity_m q" "0 \<le> front_m q"
    and l: "length (buffer_m q) = nat (capacity_m q)"
    using assms by (auto simp: q_wf_def split: if_splits)
  have s: "(front_m q + i) smod capacity_m q = (front_m q + i) mod capacity_m q"
    using c assms(2) by (simp add: smod_nonneg)
  have "in_block (buffer_m q) ((front_m q + i) mod capacity_m q)"
    using c l by (simp add: in_block_def)
  then show ?thesis using assms(2,3) c s by (simp add: index_def)
qed


lemma front_wf:
  assumes "q_wf q" "size_m q \<noteq> 0"
  shows "front q = Inr (nat (front_m q))"
  using assms by (auto simp: q_wf_def front_def in_block_def split: if_splits)

lemma back_q_wf:
  assumes "q_wf q" "size_m q \<noteq> 0"
  shows "back_q q = Inr (nat ((back_m q + (size_m q - 1)) mod capacity_m q))"
proof -
  have c: "0 < capacity_m q" "0 \<le> back_m q" "0 < size_m q"
    and l: "length (buffer_m q) = nat (capacity_m q)"
    using assms by (auto simp: q_wf_def split: if_splits)
  have s: "(back_m q + (size_m q - 1)) smod capacity_m q = (back_m q + (size_m q - 1)) mod capacity_m q"
    using c by (simp add: smod_nonneg)
  have "in_block (buffer_m q) ((back_m q + (size_m q - 1)) mod capacity_m q)"
    using c l by (simp add: in_block_def)
  then show ?thesis using assms(2) c s by (simp add: back_q_def)
qed

lemma t_index_safe:
  assumes "t_safe q" "0 \<le> i" "i < size_t q"
  shows "t_index q i = Inr (nat ((front_t q + i) mod capacity_t q))"
proof -
  have c: "0 < capacity_t q" "0 \<le> front_t q"
    and l: "length (buffer_t q) = nat (capacity_t q)"
    using assms by (auto simp: t_safe_def split: if_splits)
  have s: "(front_t q + i) smod capacity_t q = (front_t q + i) mod capacity_t q"
    using c assms(2) by (simp add: smod_nonneg)
  have "in_block (buffer_t q) ((front_t q + i) mod capacity_t q)"
    using c l by (simp add: in_block_def)
  then show ?thesis using assms(2,3) c s by (simp add: t_index_def)
qed

lemma t_front_safe:
  assumes "t_safe q" "size_t q \<noteq> 0"
  shows "t_front q = Inr (nat (front_t q))"
  using assms by (auto simp: t_safe_def t_front_def in_block_def split: if_splits)

lemma t_back_safe:
  assumes "t_safe q" "size_t q \<noteq> 0"
  shows "t_back q = Inr (nat ((back_t q + (size_t q - 1)) mod capacity_t q))"
proof -
  have c: "0 < capacity_t q" "0 \<le> back_t q" "0 < size_t q"
    and l: "length (buffer_t q) = nat (capacity_t q)"
    using assms by (auto simp: t_safe_def split: if_splits)
  have s: "(back_t q + (size_t q - 1)) smod capacity_t q = (back_t q + (size_t q - 1)) mod capacity_t q"
    using c by (simp add: smod_nonneg)
  have "in_block (buffer_t q) ((back_t q + (size_t q - 1)) mod capacity_t q)"
    using c l by (simp add: in_block_def)
  then show ?thesis using assms(2) c s by (simp add: t_back_def)
qed







subsection \<open>Evaluation of the calls on concrete queues\<close>

lemmas queue_eval =
  queue_new_def push_back_def push_back_move_def emplace_back_def pop_def should_reallocate_def
  move_loop.simps in_block_def index_def back_q_def front_def deref_def Let_def
  clear_def clear_loop.simps destroy_def destroy_loop.simps smod_int_alt_def
  int_env_def schar_env_def eval_nat_numeral

lemmas queue_trivial_eval =
  queue_trivial_new_def t_push_back_def t_emplace_back_def t_emplace_back_init_def t_pop_def
  t_pop_deinit_def t_should_reallocate_def memcpy_def in_block_def t_index_def t_back_def
  t_front_def t_deref_def t_clear_def t_empty_def t_size_def Let_def smod_int_alt_def
  int_env_def schar_env_def eval_nat_numeral nth_append

lemma granted_int_env: "c \<le> 1073741823 \<Longrightarrow> granted int_env k c"
  by (simp add: granted_def int_env_def)

section \<open>The claims\<close>

text \<open>
  C1. For both variants, \<^verbatim>\<open>back()\<close> should return the reference to the newest live element,
  the one at logical position \<open>size - 1\<close>, in physical slot \<open>(front + size - 1) mod capacity\<close>.
  The code computes \<^verbatim>\<open>(back_ + (size_ - 1)) % capacity_\<close>, from \<^verbatim>\<open>back_\<close> instead of \<^verbatim>\<open>front_\<close>.
  After one \<^verbatim>\<open>push_back(7)\<close> on a new queue of either variant, the newest element is in slot
  0 (where \<^verbatim>\<open>operator[]\<close> finds it) and \<^verbatim>\<open>back()\<close> refers to slot 1, which was never written.
  After the first calls of \<^verbatim>\<open>example.cpp\<close> (\<^verbatim>\<open>push_back\<close> of 1 and 2, two \<^verbatim>\<open>emplace_back\<close> whose slots
  end up holding 3 and 4, one \<^verbatim>\<open>pop\<close>) the newest element 4 is in slot 3 and \<^verbatim>\<open>back()\<close>
  refers to slot 2, which holds 3.
\<close>

theorem back_q_misses_newest_element:
  "(case run int_env queue_new [PushBack (Outside (7::int))] of
      Inl e \<Rightarrow> False
    | Inr q \<Rightarrow> size_m q = 1 \<and> index q (size_m q - 1) = Inr 0 \<and>
        deref q (index q (size_m q - 1)) = Inr (Some 7) \<and>
        back_q q = Inr 1 \<and> deref q (back_q q) = Inr None) \<and>
   (case t_run int_env queue_trivial_new [TPushBack (Outside (7::int))] of
      Inl e \<Rightarrow> False
    | Inr q \<Rightarrow> size_t q = 1 \<and> t_index q (size_t q - 1) = Inr 0 \<and>
        t_deref q (t_index q (size_t q - 1)) = Inr (Some 7) \<and>
        t_back q = Inr 1 \<and> t_deref q (t_back q) = Inr None) \<and>
   (case run int_env queue_new
           [PushBack (Outside (1::int)), PushBack (Outside 2), EmplaceBack 3, EmplaceBack 4, Pop] of
      Inl e \<Rightarrow> False
    | Inr q \<Rightarrow> size_m q = 3 \<and> index q (size_m q - 1) = Inr 3 \<and>
        deref q (index q (size_m q - 1)) = Inr (Some 4) \<and>
        back_q q = Inr 2 \<and> deref q (back_q q) = Inr (Some 3))"
proof (intro conjI)
  show "(case run int_env queue_new [PushBack (Outside (7::int))] of
      Inl e \<Rightarrow> False
    | Inr q \<Rightarrow> size_m q = 1 \<and> index q (size_m q - 1) = Inr 0 \<and>
        deref q (index q (size_m q - 1)) = Inr (Some 7) \<and>
        back_q q = Inr 1 \<and> deref q (back_q q) = Inr None)"
    by (simp add: queue_eval)
  show "(case t_run int_env queue_trivial_new [TPushBack (Outside (7::int))] of
      Inl e \<Rightarrow> False
    | Inr q \<Rightarrow> size_t q = 1 \<and> t_index q (size_t q - 1) = Inr 0 \<and>
        t_deref q (t_index q (size_t q - 1)) = Inr (Some 7) \<and>
        t_back q = Inr 1 \<and> t_deref q (t_back q) = Inr None)"
    by (simp add: queue_trivial_eval)
  show "(case run int_env queue_new
           [PushBack (Outside (1::int)), PushBack (Outside 2), EmplaceBack 3, EmplaceBack 4, Pop] of
      Inl e \<Rightarrow> False
    | Inr q \<Rightarrow> size_m q = 3 \<and> index q (size_m q - 1) = Inr 3 \<and>
        deref q (index q (size_m q - 1)) = Inr (Some 4) \<and>
        back_q q = Inr 2 \<and> deref q (back_q q) = Inr (Some 3))"
    by (simp add: queue_eval)
qed

text \<open>
  C2. For the trivial variant, \<^verbatim>\<open>clear()\<close> should leave \<open>size = 0\<close> and \<open>front = back = 0\<close>, and
  a following append should behave as on an empty queue. The code resets \<^verbatim>\<open>front_\<close> and
  \<^verbatim>\<open>back_\<close> and leaves \<^verbatim>\<open>size_\<close> as it was: after \<^verbatim>\<open>push_back(7); clear()\<close> the size is still 1
  and \<^verbatim>\<open>empty()\<close> is false; a following \<^verbatim>\<open>push_back(8)\<close> gives size 2, with 8 at logical
  position 0 and a slot that was never written at logical position 1.
\<close>

theorem t_clear_keeps_size:
  "(case t_run int_env queue_trivial_new [TPushBack (Outside (7::int)), TClear] of
      Inl e \<Rightarrow> False
    | Inr q \<Rightarrow> size_t q = 1 \<and> t_size q = 1 \<and> \<not> t_empty q \<and> front_t q = 0 \<and> back_t q = 0) \<and>
   (case t_run int_env queue_trivial_new
           [TPushBack (Outside (7::int)), TClear, TPushBack (Outside 8)] of
      Inl e \<Rightarrow> False
    | Inr q \<Rightarrow> size_t q = 2 \<and> t_deref q (t_index q 0) = Inr (Some 8) \<and>
        t_deref q (t_index q 1) = Inr None)"
  by (simp add: queue_trivial_eval)

text \<open>
  C3. For the trivial variant, growth should keep every live element at its logical
  position, also when the live range wraps. The code copies the first \<^verbatim>\<open>size_\<close> physical
  slots with one \<^verbatim>\<open>memcpy\<close> and sets \<^verbatim>\<open>front_ = 0\<close>, so a wrapped range is rotated. After
  \<^verbatim>\<open>push_back(1); push_back(2); pop(); push_back(3)\<close> the queue is full with \<open>front = 1\<close>
  and holds 2, 3 in logical order; the growth check of the next append leaves
  \<open>front = 0\<close> with 3 at logical position 0 and 2 at logical position 1.
\<close>

theorem t_should_reallocate_rotates_wrapped_range:
  "(case t_run int_env queue_trivial_new
           [TPushBack (Outside (1::int)), TPushBack (Outside 2), TPop, TPushBack (Outside 3)] of
      Inl e \<Rightarrow> False
    | Inr q \<Rightarrow> size_t q = capacity_t q \<and> front_t q = 1 \<and>
        t_deref q (t_index q 0) = Inr (Some 2) \<and> t_deref q (t_index q 1) = Inr (Some 3) \<and>
        (case t_should_reallocate int_env q of
           Inl e \<Rightarrow> False
         | Inr q' \<Rightarrow> front_t q' = 0 \<and>
             t_deref q' (t_index q' 0) = Inr (Some 3) \<and>
             t_deref q' (t_index q' 1) = Inr (Some 2)))"
  by (simp add: queue_trivial_eval)

text \<open>
  C4. For the general variant, in every reachable state where an append triggers growth
  (\<open>size = capacity\<close>): when the doubled capacity does not fit \<^verbatim>\<open>INT_TYPE\<close> or \<^verbatim>\<open>malloc\<close> returns
  the null pointer, \<^verbatim>\<open>should_reallocate\<close> does not return (capacity overflow, respectively
  \<^verbatim>\<open>abort()\<close>); otherwise it returns with \<open>front = 0\<close> and \<open>back = size\<close>, and for every \<open>i\<close> in
  \<open>[0, size)\<close>: the index \<^verbatim>\<open>(front_ + i) % size_\<close> of the code is \<open>(front + i) mod capacity\<close>, the
  new slot \<open>i\<close> holds what the old slot \<open>(front + i) mod capacity\<close> held, and indexed access
  at \<open>i\<close> refers to the new slot \<open>i\<close> and reads the same value as before the growth.
\<close>

theorem growth_keeps_logical_positions:
  assumes "run m queue_new ops = Inr q" "size_m q = capacity_m q"
  shows "if int_type_max m < max 2 (2 * capacity_m q)
     then should_reallocate m q = Inl CapacityOverflow
     else if \<not> malloc_ok m (mallocs q) (nat (max 2 (2 * capacity_m q)))
     then should_reallocate m q = Inl Aborted
     else (\<exists>q'. should_reallocate m q = Inr q' \<and>
       front_m q' = 0 \<and> back_m q' = size_m q \<and> size_m q' = size_m q \<and>
       capacity_m q' = max 2 (2 * capacity_m q) \<and>
       (\<forall>i. 0 \<le> i \<and> i < size_m q \<longrightarrow>
          (front_m q + i) smod size_m q = (front_m q + i) mod capacity_m q \<and>
          buffer_m q' ! nat i = buffer_m q ! nat ((front_m q + i) mod capacity_m q) \<and>
          index q' i = Inr (nat i) \<and>
          completes (index q i) \<and>
          deref q' (index q' i) = deref q (index q i)))"
proof -
  have w: "q_wf q" using assms(1) by (rule run_new_wf)
  have e: "capacity_m q = size_m q" using assms(2) by (rule sym)
  show ?thesis
  proof (cases "int_type_max m < max 2 (2 * capacity_m q)")
    case True
    then show ?thesis using should_reallocate_overflow [OF w e True] by (simp only: if_True)
  next
    case fits: False
    show ?thesis
    proof (cases "malloc_ok m (mallocs q) (nat (max 2 (2 * capacity_m q)))")
      case False
      have le: "max 2 (2 * capacity_m q) \<le> int_type_max m" using fits by linarith
      from should_reallocate_abort [OF w e le False] fits False show ?thesis
        by (simp only: if_False if_True not_False_eq_True)
    next
      case True
      have g: "granted m (mallocs q) (capacity_m q)"
        unfolding granted_def using fits True by (intro conjI) (linarith, blast)
      from should_reallocate_grow [OF w e g] obtain b where b:
        "should_reallocate m q =
           Inr (q\<lparr>buffer_m := b, capacity_m := max 2 (2 * capacity_m q),
                  front_m := 0, back_m := size_m q, mallocs := mallocs q + 1\<rparr>)"
        "length b = nat (max 2 (2 * capacity_m q))"
        "\<And>j. j < nat (size_m q) \<Longrightarrow>
           b ! j = buffer_m q ! nat ((front_m q + int j) mod capacity_m q)"
        by blast
      let ?q' = "q\<lparr>buffer_m := b, capacity_m := max 2 (2 * capacity_m q),
                  front_m := 0, back_m := size_m q, mallocs := mallocs q + 1\<rparr>"
      have w': "q_wf ?q'" using should_reallocate_wf [OF w b(1)] by (rule conjunct1)
      have f: "0 \<le> front_m q" using w by (simp add: q_wf_def)
      have pos: "(front_m q + i) smod size_m q = (front_m q + i) mod capacity_m q \<and>
        buffer_m ?q' ! nat i = buffer_m q ! nat ((front_m q + i) mod capacity_m q) \<and>
        index ?q' i = Inr (nat i) \<and>
        completes (index q i) \<and>
        deref ?q' (index ?q' i) = deref q (index q i)"
        if i: "0 \<le> i" "i < size_m q" for i
      proof -
        have 1: "(front_m q + i) smod size_m q = (front_m q + i) mod capacity_m q"
          using i f by (simp add: smod_nonneg e [symmetric])
        have 2: "b ! nat i = buffer_m q ! nat ((front_m q + i) mod capacity_m q)"
          using b(3) [of "nat i"] i by simp
        have "i < max 2 (2 * capacity_m q)" using i(2) unfolding e [symmetric] by simp
        then have 3: "index ?q' i = Inr (nat i)"
          using index_wf [OF w', of i] i by simp
        have 4: "index q i = Inr (nat ((front_m q + i) mod capacity_m q))"
          using index_wf [OF w i] .
        show ?thesis using 1 2 3 4 by (simp add: deref_def completes_def)
      qed
      have "\<exists>q'. should_reallocate m q = Inr q' \<and>
       front_m q' = 0 \<and> back_m q' = size_m q \<and> size_m q' = size_m q \<and>
       capacity_m q' = max 2 (2 * capacity_m q) \<and>
       (\<forall>i. 0 \<le> i \<and> i < size_m q \<longrightarrow>
          (front_m q + i) smod size_m q = (front_m q + i) mod capacity_m q \<and>
          buffer_m q' ! nat i = buffer_m q ! nat ((front_m q + i) mod capacity_m q) \<and>
          index q' i = Inr (nat i) \<and>
          completes (index q i) \<and>
          deref q' (index q' i) = deref q (index q i))"
      proof (intro exI conjI)
        show "should_reallocate m q = Inr ?q'" by (fact b(1))
        show "front_m ?q' = 0" "back_m ?q' = size_m q" "size_m ?q' = size_m q"
          "capacity_m ?q' = max 2 (2 * capacity_m q)" by simp_all
        show "\<forall>i. 0 \<le> i \<and> i < size_m q \<longrightarrow>
          (front_m q + i) smod size_m q = (front_m q + i) mod capacity_m q \<and>
          buffer_m ?q' ! nat i = buffer_m q ! nat ((front_m q + i) mod capacity_m q) \<and>
          index ?q' i = Inr (nat i) \<and>
          completes (index q i) \<and>
          deref ?q' (index ?q' i) = deref q (index q i)"
          using pos by blast
      qed
      then show ?thesis using fits True by (simp only: if_False not_True_eq_False)
    qed
  qed
qed

theorem growth_keeps_logical_positions_witness:
  "run int_env queue_new
     [PushBack (Outside (1::int)), PushBack (Outside 2), Pop, PushBack (Outside 3)] =
     Inr \<lparr>buffer_m = [Some 3, Some 2], front_m = 1, back_m = 1, capacity_m = 2, size_m = 2,
          constructed = 0, destroyed = 1, mallocs = 1\<rparr> \<and>
   (\<exists>q'. should_reallocate int_env \<lparr>buffer_m = [Some 3, Some (2::int)], front_m = 1,
            back_m = 1, capacity_m = 2, size_m = 2, constructed = 0, destroyed = 1,
            mallocs = 1\<rparr> = Inr q' \<and>
      front_m q' = 0 \<and> back_m q' = 2 \<and> capacity_m q' = 4 \<and>
      buffer_m q' ! 0 = Some 2 \<and> buffer_m q' ! 1 = Some 3 \<and>
      deref q' (index q' 0) = Inr (Some 2) \<and> deref q' (index q' 1) = Inr (Some 3))"
proof -
  let ?q = "\<lparr>buffer_m = [Some 3, Some (2::int)], front_m = 1, back_m = 1,
            capacity_m = 2, size_m = 2, constructed = 0, destroyed = 1, mallocs = 1\<rparr>"
  have h1: "run int_env queue_new
     [PushBack (Outside (1::int)), PushBack (Outside 2), Pop, PushBack (Outside 3)] = Inr ?q"
    by (simp add: queue_eval)
  have h2: "size_m ?q = capacity_m ?q" by simp
  have fits: "\<not> int_type_max (int_env :: int env) < max 2 (2 * capacity_m ?q)"
    by (simp add: int_env_def)
  have ok: "malloc_ok (int_env :: int env) (mallocs ?q) (nat (max 2 (2 * capacity_m ?q)))"
    by (simp add: int_env_def)
  from growth_keeps_logical_positions [OF h1 h2] fits ok
  have "\<exists>q'. should_reallocate int_env ?q = Inr q' \<and>
       front_m q' = 0 \<and> back_m q' = size_m ?q \<and> size_m q' = size_m ?q \<and>
       capacity_m q' = max 2 (2 * capacity_m ?q) \<and>
       (\<forall>i. 0 \<le> i \<and> i < size_m ?q \<longrightarrow>
          (front_m ?q + i) smod size_m ?q = (front_m ?q + i) mod capacity_m ?q \<and>
          buffer_m q' ! nat i = buffer_m ?q ! nat ((front_m ?q + i) mod capacity_m ?q) \<and>
          index q' i = Inr (nat i) \<and>
          completes (index ?q i) \<and>
          deref q' (index q' i) = deref ?q (index ?q i))"
    by (simp only: if_False not_True_eq_False)
  then obtain q' where q':
    "should_reallocate int_env ?q = Inr q'" "front_m q' = 0" "back_m q' = size_m ?q"
    "capacity_m q' = max 2 (2 * capacity_m ?q)"
    "\<And>i. 0 \<le> i \<and> i < size_m ?q \<Longrightarrow>
        buffer_m q' ! nat i = buffer_m ?q ! nat ((front_m ?q + i) mod capacity_m ?q) \<and>
        deref q' (index q' i) = deref ?q (index ?q i)"
    by blast
  have r: "deref ?q (index ?q 0) = Inr (Some 2)" "deref ?q (index ?q 1) = Inr (Some 3)"
    by (simp_all add: queue_eval)
  have "buffer_m q' ! 0 = Some 2 \<and> deref q' (index q' 0) = Inr (Some 2)"
    using q'(5) [of 0] r(1) by simp
  moreover have "buffer_m q' ! 1 = Some 3 \<and> deref q' (index q' 1) = Inr (Some 3)"
    using q'(5) [of 1] r(2) by simp
  ultimately show ?thesis using h1 q'(1,2,3,4) by simp
qed

text \<open>
  C5. For the general variant, the constructor calls minus the destructor calls should
  always equal \<open>size\<close>, and destroying the queue should bring the balance to zero. In the
  code \<^verbatim>\<open>push_back\<close> assigns into the raw slot and calls no constructor (only
  \<^verbatim>\<open>emplace_back\<close> uses placement \<^verbatim>\<open>new\<close>), while \<^verbatim>\<open>pop\<close> and the destructor of the queue call
  \<^verbatim>\<open>~T()\<close> once per element. After one \<^verbatim>\<open>push_back(7)\<close> the balance is 0 and the size is 1;
  destroying that queue calls one destructor, so the balance ends at \<open>-1\<close>.
\<close>

theorem push_back_constructs_nothing:
  "(case run int_env queue_new [PushBack (Outside (7::int))] of
      Inl e \<Rightarrow> False
    | Inr q \<Rightarrow> constructed q = 0 \<and> destroyed q = 0 \<and> size_m q = 1 \<and>
        (case destroy q of
           Inl e \<Rightarrow> False
         | Inr q' \<Rightarrow> constructed q' = 0 \<and> destroyed q' = 1))"
  by (simp add: queue_eval)

text \<open>
  C6. For both variants and every instantiation, after every sequence of calls on a new
  queue in which every call returned (for the trivial variant: every sequence of appends
  and removes, that is, without \<^verbatim>\<open>clear()\<close>), \<open>0 \<le> size \<le> capacity\<close>, and whenever
  \<open>capacity > 0\<close> also \<open>back = (front + size) mod capacity\<close>.
\<close>

theorem size_capacity_back_invariant:
  "(run m queue_new ops = Inr q \<longrightarrow>
      0 \<le> size_m q \<and> size_m q \<le> capacity_m q \<and>
      (capacity_m q > 0 \<longrightarrow> back_m q = (front_m q + size_m q) mod capacity_m q)) \<and>
   (TClear \<notin> set tops \<and> t_run m queue_trivial_new tops = Inr t \<longrightarrow>
      0 \<le> size_t t \<and> size_t t \<le> capacity_t t \<and>
      (capacity_t t > 0 \<longrightarrow> back_t t = (front_t t + size_t t) mod capacity_t t))"
proof (intro conjI impI)
  assume "run m queue_new ops = Inr q"
  then have w: "q_wf q" by (rule run_new_wf)
  show "0 \<le> size_m q" "size_m q \<le> capacity_m q" using w by (simp_all add: q_wf_def)
  assume "capacity_m q > 0"
  then show "back_m q = (front_m q + size_m q) mod capacity_m q" using w by (simp add: q_wf_def)
next
  assume "TClear \<notin> set tops \<and> t_run m queue_trivial_new tops = Inr t"
  then have w: "t_wf t" using t_run_new_wf by blast
  show "0 \<le> size_t t" "size_t t \<le> capacity_t t" using w by (simp_all add: t_wf_def)
  assume "capacity_t t > 0"
  then show "back_t t = (front_t t + size_t t) mod capacity_t t" using w by (simp add: t_wf_def)
qed

theorem size_capacity_back_invariant_witness:
  "run int_env queue_new
     [PushBack (Outside (1::int)), PushBack (Outside 2), Pop, PushBack (Outside 3)] =
     Inr \<lparr>buffer_m = [Some 3, Some 2], front_m = 1, back_m = 1, capacity_m = 2, size_m = 2,
          constructed = 0, destroyed = 1, mallocs = 1\<rparr> \<and>
   TClear \<notin> set [TPushBack (Outside (1::int)), TPushBack (Outside 2), TPop,
                 TPushBack (Outside 3), TPop] \<and>
   t_run int_env queue_trivial_new
     [TPushBack (Outside (1::int)), TPushBack (Outside 2), TPop, TPushBack (Outside 3), TPop] =
     Inr \<lparr>buffer_t = [Some 3, Some 2], front_t = 0, back_t = 1, capacity_t = 2, size_t = 1,
          mallocs_t = 1\<rparr> \<and>
   (1::int) = (1 + 2) mod 2 \<and> (1::int) = (0 + 1) mod 2"
proof -
  let ?q = "\<lparr>buffer_m = [Some 3, Some (2::int)], front_m = 1, back_m = 1,
            capacity_m = 2, size_m = 2, constructed = 0, destroyed = 1, mallocs = 1\<rparr>"
  let ?t = "\<lparr>buffer_t = [Some 3, Some (2::int)], front_t = 0, back_t = 1, capacity_t = 2,
            size_t = 1, mallocs_t = 1\<rparr>"
  let ?ops = "[PushBack (Outside (1::int)), PushBack (Outside 2), Pop, PushBack (Outside 3)]"
  let ?tops = "[TPushBack (Outside (1::int)), TPushBack (Outside 2), TPop,
                TPushBack (Outside 3), TPop]"
  have h1: "run int_env queue_new ?ops = Inr ?q"
    by (simp add: queue_eval)
  have h2: "TClear \<notin> set ?tops" by simp
  have h3: "t_run int_env queue_trivial_new ?tops = Inr ?t"
    by (simp add: queue_trivial_eval)
  have "back_m ?q = (front_m ?q + size_m ?q) mod capacity_m ?q"
    using size_capacity_back_invariant [of int_env ?ops ?q] h1 by simp
  moreover have "back_t ?t = (front_t ?t + size_t ?t) mod capacity_t ?t"
    using size_capacity_back_invariant [of int_env _ _ ?tops ?t] h2 h3 by simp
  ultimately show ?thesis using h1 h2 h3 by simp
qed

text \<open>
  C7. For both variants and every instantiation, in every reachable state: an append
  that returns has called \<^verbatim>\<open>malloc\<close> exactly when \<open>size = capacity\<close> held on entry, and then
  the new capacity is \<open>max 2 (2 * capacity)\<close>; otherwise the capacity and the number of
  allocations are unchanged. When the queue is full and the doubled capacity does not fit
  \<^verbatim>\<open>INT_TYPE\<close>, or \<^verbatim>\<open>malloc\<close> returns the null pointer, the append does not return (capacity
  overflow, respectively \<^verbatim>\<open>abort()\<close>); in every other case an append whose argument is not a
  reference into the queue's own buffer returns. Over any further sequence of calls that
  return, the capacity never decreases.
\<close>

theorem growth_exactly_when_full:
  "(run m queue_new ops = Inr q \<and> is_append a \<longrightarrow>
      (\<forall>q'. step m q a = Inr q' \<longrightarrow>
         (if size_m q = capacity_m q
          then mallocs q' = mallocs q + 1 \<and> capacity_m q' = max 2 (2 * capacity_m q)
          else mallocs q' = mallocs q \<and> capacity_m q' = capacity_m q)) \<and>
      (size_m q = capacity_m q \<and> int_type_max m < max 2 (2 * capacity_m q) \<longrightarrow>
         step m q a = Inl CapacityOverflow) \<and>
      (size_m q = capacity_m q \<and> max 2 (2 * capacity_m q) \<le> int_type_max m \<and>
       \<not> malloc_ok m (mallocs q) (nat (max 2 (2 * capacity_m q))) \<longrightarrow>
         step m q a = Inl Aborted) \<and>
      (from_outside a \<and> (size_m q = capacity_m q \<longrightarrow> granted m (mallocs q) (capacity_m q)) \<longrightarrow>
         completes (step m q a))) \<and>
   (run m queue_new ops = Inr q \<and> run m q ops' = Inr q'' \<longrightarrow> capacity_m q \<le> capacity_m q'') \<and>
   (t_run m queue_trivial_new tops = Inr t \<and> t_is_append b \<longrightarrow>
      (\<forall>t'. t_step m t b = Inr t' \<longrightarrow>
         (if size_t t = capacity_t t
          then mallocs_t t' = mallocs_t t + 1 \<and> capacity_t t' = max 2 (2 * capacity_t t)
          else mallocs_t t' = mallocs_t t \<and> capacity_t t' = capacity_t t)) \<and>
      (size_t t = capacity_t t \<and> int_type_max m < max 2 (2 * capacity_t t) \<longrightarrow>
         t_step m t b = Inl CapacityOverflow) \<and>
      (size_t t = capacity_t t \<and> max 2 (2 * capacity_t t) \<le> int_type_max m \<and>
       \<not> malloc_ok m (mallocs_t t) (nat (max 2 (2 * capacity_t t))) \<longrightarrow>
         t_step m t b = Inl Aborted) \<and>
      (t_from_outside b \<and>
       (size_t t = capacity_t t \<longrightarrow> granted m (mallocs_t t) (capacity_t t)) \<longrightarrow>
         completes (t_step m t b))) \<and>
   (t_run m queue_trivial_new tops = Inr t \<and> t_run m t tops' = Inr t'' \<longrightarrow>
      capacity_t t \<le> capacity_t t'')"
proof (intro conjI impI allI)
  fix q'
  assume a: "run m queue_new ops = Inr q \<and> is_append a" and s: "step m q a = Inr q'"
  from a have w: "q_wf q" using run_new_wf by blast
  from append_step_law [OF w _ s] a
  show "if size_m q = capacity_m q
          then mallocs q' = mallocs q + 1 \<and> capacity_m q' = max 2 (2 * capacity_m q)
          else mallocs q' = mallocs q \<and> capacity_m q' = capacity_m q"
    by (simp split: if_splits)
next
  assume a: "run m queue_new ops = Inr q \<and> is_append a"
    and f: "size_m q = capacity_m q \<and> int_type_max m < max 2 (2 * capacity_m q)"
  from a have w: "q_wf q" using run_new_wf by blast
  have e: "capacity_m q = size_m q" using f by simp
  have "should_reallocate m q = Inl CapacityOverflow"
    using w e by (rule should_reallocate_overflow) (use f in blast)
  with a show "step m q a = Inl CapacityOverflow" using append_step_error by blast
next
  assume a: "run m queue_new ops = Inr q \<and> is_append a"
    and f: "size_m q = capacity_m q \<and> max 2 (2 * capacity_m q) \<le> int_type_max m \<and>
       \<not> malloc_ok m (mallocs q) (nat (max 2 (2 * capacity_m q)))"
  from a have w: "q_wf q" using run_new_wf by blast
  have e: "capacity_m q = size_m q" using f by simp
  have "should_reallocate m q = Inl Aborted"
    using w e by (rule should_reallocate_abort) (use f in blast)+
  with a show "step m q a = Inl Aborted" using append_step_error by blast
next
  assume a: "run m queue_new ops = Inr q \<and> is_append a"
    and f: "from_outside a \<and>
      (size_m q = capacity_m q \<longrightarrow> granted m (mallocs q) (capacity_m q))"
  from a have w: "q_wf q" using run_new_wf by blast
  have g: "capacity_m q = size_m q \<longrightarrow> granted m (mallocs q) (capacity_m q)"
    using f by auto
  show "completes (step m q a)"
    using w _ _ g by (rule append_step_returns) (use a f in blast)+
next
  assume "run m queue_new ops = Inr q \<and> run m q ops' = Inr q''"
  then show "capacity_m q \<le> capacity_m q''" using run_new_wf run_wf by blast
next
  fix t'
  assume a: "t_run m queue_trivial_new tops = Inr t \<and> t_is_append b"
    and s: "t_step m t b = Inr t'"
  from a have w: "t_safe t" using t_run_new_safe by blast
  from t_append_step_law [OF w _ s] a
  show "if size_t t = capacity_t t
          then mallocs_t t' = mallocs_t t + 1 \<and> capacity_t t' = max 2 (2 * capacity_t t)
          else mallocs_t t' = mallocs_t t \<and> capacity_t t' = capacity_t t"
    by (simp split: if_splits)
next
  assume a: "t_run m queue_trivial_new tops = Inr t \<and> t_is_append b"
    and f: "size_t t = capacity_t t \<and> int_type_max m < max 2 (2 * capacity_t t)"
  from a have w: "t_safe t" using t_run_new_safe by blast
  have e: "capacity_t t = size_t t" using f by simp
  have "t_should_reallocate m t = Inl CapacityOverflow"
    using w e by (rule t_should_reallocate_overflow) (use f in blast)
  with a show "t_step m t b = Inl CapacityOverflow" using t_append_step_error by blast
next
  assume a: "t_run m queue_trivial_new tops = Inr t \<and> t_is_append b"
    and f: "size_t t = capacity_t t \<and> max 2 (2 * capacity_t t) \<le> int_type_max m \<and>
       \<not> malloc_ok m (mallocs_t t) (nat (max 2 (2 * capacity_t t)))"
  from a have w: "t_safe t" using t_run_new_safe by blast
  have e: "capacity_t t = size_t t" using f by simp
  have "t_should_reallocate m t = Inl Aborted"
    using w e by (rule t_should_reallocate_abort) (use f in blast)+
  with a show "t_step m t b = Inl Aborted" using t_append_step_error by blast
next
  assume a: "t_run m queue_trivial_new tops = Inr t \<and> t_is_append b"
    and f: "t_from_outside b \<and>
      (size_t t = capacity_t t \<longrightarrow> granted m (mallocs_t t) (capacity_t t))"
  from a have w: "t_safe t" using t_run_new_safe by blast
  have g: "capacity_t t = size_t t \<longrightarrow> granted m (mallocs_t t) (capacity_t t)"
    using f by auto
  show "completes (t_step m t b)"
    using w _ _ g by (rule t_append_step_returns) (use a f in blast)+
next
  assume "t_run m queue_trivial_new tops = Inr t \<and> t_run m t tops' = Inr t''"
  then show "capacity_t t \<le> capacity_t t''" using t_run_new_safe t_run_safe by blast
qed

theorem growth_exactly_when_full_witness:
  "run int_env queue_new [PushBack (Outside (1::int)), PushBack (Outside 2)] =
     Inr \<lparr>buffer_m = [Some 1, Some 2], front_m = 0, back_m = 0, capacity_m = 2, size_m = 2,
          constructed = 0, destroyed = 0, mallocs = 1\<rparr> \<and>
   is_append (PushBack (Outside (3::int))) \<and> from_outside (PushBack (Outside (3::int))) \<and>
   (\<exists>q'. step int_env \<lparr>buffer_m = [Some 1, Some 2], front_m = 0, back_m = 0,
      capacity_m = 2, size_m = 2, constructed = 0, destroyed = 0, mallocs = 1\<rparr>
      (PushBack (Outside (3::int))) = Inr q' \<and> mallocs q' = 1 + 1 \<and> capacity_m q' = 4) \<and>
   run int_env \<lparr>buffer_m = [Some 1, Some 2], front_m = 0, back_m = 0, capacity_m = 2,
             size_m = 2, constructed = 0, destroyed = 0, mallocs = 1\<rparr>
       [PushBack (Outside (3::int)), Pop] =
     Inr \<lparr>buffer_m = [Some 1, Some 2, Some 3, None], front_m = 1, back_m = 3, capacity_m = 4,
          size_m = 2, constructed = 0, destroyed = 1, mallocs = 2\<rparr> \<and>
   (2::int) \<le> 4 \<and>
   step \<lparr>int_type_max = 2147483647, malloc_ok = (\<lambda>k n. k = 0), moved_from = (\<lambda>v. v)\<rparr>
     \<lparr>buffer_m = [Some 1, Some 2], front_m = 0, back_m = 0, capacity_m = 2, size_m = 2,
      constructed = 0, destroyed = 0, mallocs = 1\<rparr> (PushBack (Outside (3::int))) = Inl Aborted \<and>
   (\<exists>q. run schar_env queue_new (replicate 64 (PushBack (Outside (7::int)))) = Inr q \<and>
      size_m q = 64 \<and> capacity_m q = 64 \<and>
      step schar_env q (PushBack (Outside 7)) = Inl CapacityOverflow) \<and>
   t_run int_env queue_trivial_new [TPushBack (Outside (1::int))] =
     Inr \<lparr>buffer_t = [Some 1, None], front_t = 0, back_t = 1, capacity_t = 2, size_t = 1,
          mallocs_t = 1\<rparr> \<and>
   t_is_append (TEmplaceBack :: int queue_trivial_op) \<and>
   t_from_outside (TEmplaceBack :: int queue_trivial_op) \<and>
   (\<exists>t'. t_step int_env \<lparr>buffer_t = [Some (1::int), None], front_t = 0, back_t = 1,
      capacity_t = 2, size_t = 1, mallocs_t = 1\<rparr> TEmplaceBack = Inr t' \<and>
      mallocs_t t' = 1 \<and> capacity_t t' = 2) \<and>
   t_run int_env \<lparr>buffer_t = [Some (1::int), None], front_t = 0, back_t = 1, capacity_t = 2,
             size_t = 1, mallocs_t = 1\<rparr> [TClear, TPushBack (Outside 5), TPushBack (Outside 6)] =
     Inr \<lparr>buffer_t = [Some 5, None, Some 6, None], front_t = 0, back_t = 3, capacity_t = 4,
          size_t = 3, mallocs_t = 2\<rparr>"
proof -
  let ?q = "\<lparr>buffer_m = [Some 1, Some (2::int)], front_m = 0, back_m = 0, capacity_m = 2,
             size_m = 2, constructed = 0, destroyed = 0, mallocs = 1\<rparr>"
  let ?q2 = "\<lparr>buffer_m = [Some 1, Some 2, Some (3::int), None], front_m = 1, back_m = 3,
          capacity_m = 4, size_m = 2, constructed = 0, destroyed = 1, mallocs = 2\<rparr>"
  let ?t = "\<lparr>buffer_t = [Some (1::int), None], front_t = 0, back_t = 1, capacity_t = 2,
             size_t = 1, mallocs_t = 1\<rparr>"
  let ?t2 = "\<lparr>buffer_t = [Some (5::int), None, Some 6, None], front_t = 0, back_t = 3,
          capacity_t = 4, size_t = 3, mallocs_t = 2\<rparr>"
  let ?once = "\<lparr>int_type_max = 2147483647, malloc_ok = (\<lambda>k n. k = (0::nat)),
          moved_from = (\<lambda>v :: int option. v)\<rparr>"
  let ?ops = "[PushBack (Outside (1::int)), PushBack (Outside 2)]"
  let ?a = "PushBack (Outside (3::int))"
  let ?tops = "[TPushBack (Outside (1::int))]"
  have h1: "run int_env queue_new ?ops = Inr ?q"
    by (simp add: queue_eval)
  have h2: "is_append ?a \<and> from_outside ?a" by simp
  have h3: "run int_env ?q [?a, Pop] = Inr ?q2"
    by (simp add: queue_eval)
  have h4: "t_run int_env queue_trivial_new ?tops = Inr ?t"
    by (simp add: queue_trivial_eval)
  have h5: "t_is_append (TEmplaceBack :: int queue_trivial_op) \<and>
      t_from_outside (TEmplaceBack :: int queue_trivial_op)" by simp
  have h6: "t_run int_env ?t [TClear, TPushBack (Outside 5), TPushBack (Outside 6)] = Inr ?t2"
    by (simp add: queue_trivial_eval)
  have g: "granted (int_env :: int env) (mallocs ?q) (capacity_m ?q)"
    by (simp add: granted_int_env)
  note inst = growth_exactly_when_full
    [of int_env ?ops ?q ?a "[?a, Pop]" ?q2 ?tops ?t TEmplaceBack
        "[TClear, TPushBack (Outside 5), TPushBack (Outside 6)]" ?t2]
  have c1: "completes (step int_env ?q ?a)" using inst h1 h2 g by blast
  have "\<forall>q'. step int_env ?q ?a = Inr q' \<longrightarrow>
         (if size_m ?q = capacity_m ?q
          then mallocs q' = mallocs ?q + 1 \<and> capacity_m q' = max 2 (2 * capacity_m ?q)
          else mallocs q' = mallocs ?q \<and> capacity_m q' = capacity_m ?q)"
    using inst h1 h2 by blast
  then have "\<forall>q'. step int_env ?q ?a = Inr q' \<longrightarrow> mallocs q' = 1 + 1 \<and> capacity_m q' = 4"
    by simp
  moreover from c1 obtain q3 where "step int_env ?q ?a = Inr q3"
    by (auto simp only: completes_def split: sum.splits)
  ultimately have c2: "\<exists>q'. step int_env ?q ?a = Inr q' \<and> mallocs q' = 1 + 1 \<and> capacity_m q' = 4"
    by blast
  have c3: "capacity_m ?q \<le> capacity_m ?q2" using inst h1 h3 by blast
  have c4: "completes (t_step int_env ?t TEmplaceBack)" using inst h4 h5 by simp
  have "\<forall>t'. t_step int_env ?t TEmplaceBack = Inr t' \<longrightarrow>
         (if size_t ?t = capacity_t ?t
          then mallocs_t t' = mallocs_t ?t + 1 \<and> capacity_t t' = max 2 (2 * capacity_t ?t)
          else mallocs_t t' = mallocs_t ?t \<and> capacity_t t' = capacity_t ?t)"
    using inst h4 h5 by blast
  then have "\<forall>t'. t_step int_env ?t TEmplaceBack = Inr t' \<longrightarrow>
      mallocs_t t' = 1 \<and> capacity_t t' = 2"
    by simp
  moreover from c4 obtain t3 where "t_step int_env ?t TEmplaceBack = Inr t3"
    by (auto simp only: completes_def split: sum.splits)
  ultimately have c5: "\<exists>t'. t_step int_env ?t TEmplaceBack = Inr t' \<and>
      mallocs_t t' = 1 \<and> capacity_t t' = 2"
    by blast
  have c6: "capacity_t ?t \<le> capacity_t ?t2" using inst h4 h6 by blast
  have c7: "(2::int) \<le> 4" using c3 c6 by simp
  have a1: "run ?once queue_new ?ops = Inr ?q" by (simp add: queue_eval)
  have a2: "size_m ?q = capacity_m ?q \<and> max 2 (2 * capacity_m ?q) \<le> int_type_max ?once \<and>
       \<not> malloc_ok ?once (mallocs ?q) (nat (max 2 (2 * capacity_m ?q)))" by simp
  have c8: "step ?once ?q ?a = Inl Aborted"
    using growth_exactly_when_full [of ?once ?ops ?q ?a] a1 a2 h2 by blast
  have "\<exists>q. run schar_env queue_new (replicate 64 (PushBack (Outside (7::int)))) = Inr q \<and>
      size_m q = 64 \<and> capacity_m q = 64"
    by (simp add: queue_eval)
  then obtain q where q: "run schar_env queue_new (replicate 64 (PushBack (Outside (7::int)))) = Inr q"
    "size_m q = 64" "capacity_m q = 64" by blast
  have o: "size_m q = capacity_m q \<and> int_type_max (schar_env :: int env) < max 2 (2 * capacity_m q)"
    using q(2,3) by (simp add: schar_env_def)
  have "step schar_env q (PushBack (Outside 7)) = Inl CapacityOverflow"
    using growth_exactly_when_full
      [of schar_env "replicate 64 (PushBack (Outside (7::int)))" q "PushBack (Outside 7)"] q(1) o
    by simp
  then have c9: "\<exists>q. run schar_env queue_new (replicate 64 (PushBack (Outside (7::int)))) = Inr q \<and>
      size_m q = 64 \<and> capacity_m q = 64 \<and>
      step schar_env q (PushBack (Outside 7)) = Inl CapacityOverflow"
    using q by blast
  show ?thesis using h1 h2 h3 h4 h5 h6 c2 c5 c7 c8 c9 by blast
qed

text \<open>
  C8. For both variants, \<^verbatim>\<open>pop\<close>, \<^verbatim>\<open>front()\<close> and \<^verbatim>\<open>back()\<close> on a queue with \<open>size = 0\<close>, and
  indexed access with \<open>i < 0\<close> or \<open>i \<ge> size\<close>, fail their assertion. In every reachable state
  with \<open>size > 0\<close> (respectively \<open>0 \<le> i < size\<close>) the call returns: the assertion holds and
  no access leaves the block.
\<close>

theorem precondition_assertions:
  "(size_m q = 0 \<longrightarrow>
      pop q = Inl AssertionFailed \<and> front q = Inl AssertionFailed \<and>
      back_q q = Inl AssertionFailed) \<and>
   (i < 0 \<or> size_m q \<le> i \<longrightarrow> index q i = Inl AssertionFailed) \<and>
   (run m queue_new ops = Inr q \<and> size_m q > 0 \<longrightarrow>
      completes (pop q) \<and> completes (front q) \<and> completes (back_q q)) \<and>
   (run m queue_new ops = Inr q \<and> 0 \<le> i \<and> i < size_m q \<longrightarrow> completes (index q i)) \<and>
   (size_t t = 0 \<longrightarrow>
      t_pop t = Inl AssertionFailed \<and> t_pop_deinit f t = Inl AssertionFailed \<and>
      t_front t = Inl AssertionFailed \<and> t_back t = Inl AssertionFailed) \<and>
   (j < 0 \<or> size_t t \<le> j \<longrightarrow> t_index t j = Inl AssertionFailed) \<and>
   (t_run m queue_trivial_new tops = Inr t \<and> size_t t > 0 \<longrightarrow>
      completes (t_pop t) \<and> completes (t_pop_deinit f t) \<and>
      completes (t_front t) \<and> completes (t_back t)) \<and>
   (t_run m queue_trivial_new tops = Inr t \<and> 0 \<le> j \<and> j < size_t t \<longrightarrow>
      completes (t_index t j))"
proof (intro conjI impI)
  assume "size_m q = 0"
  then show "pop q = Inl AssertionFailed" "front q = Inl AssertionFailed"
    "back_q q = Inl AssertionFailed"
    by (simp_all add: pop_def front_def back_q_def)
next
  assume "i < 0 \<or> size_m q \<le> i"
  then show "index q i = Inl AssertionFailed" by (auto simp: index_def)
next
  assume a: "run m queue_new ops = Inr q \<and> size_m q > 0"
  then have w: "q_wf q" and s: "size_m q \<noteq> 0" using run_new_wf by auto
  show "completes (pop q)" using pop_wf [OF w s] by (auto simp: completes_def)
  show "completes (front q)" using front_wf [OF w s] by (simp add: completes_def)
  show "completes (back_q q)" using back_q_wf [OF w s] by (simp add: completes_def)
next
  assume a: "run m queue_new ops = Inr q \<and> 0 \<le> i \<and> i < size_m q"
  then have w: "q_wf q" using run_new_wf by blast
  show "completes (index q i)" using index_wf [OF w, of i] a by (simp add: completes_def)
next
  assume "size_t t = 0"
  then show "t_pop t = Inl AssertionFailed" "t_pop_deinit f t = Inl AssertionFailed"
    "t_front t = Inl AssertionFailed" "t_back t = Inl AssertionFailed"
    by (simp_all add: t_pop_def t_pop_deinit_def t_front_def t_back_def)
next
  assume "j < 0 \<or> size_t t \<le> j"
  then show "t_index t j = Inl AssertionFailed" by (auto simp: t_index_def)
next
  assume a: "t_run m queue_trivial_new tops = Inr t \<and> size_t t > 0"
  then have w: "t_safe t" and s: "size_t t \<noteq> 0" using t_run_new_safe by auto
  show "completes (t_pop t)" using t_pop_safe [OF w s] by (auto simp: completes_def)
  show "completes (t_pop_deinit f t)" using t_pop_deinit_safe [OF w s, of f]
    by (auto simp: completes_def)
  show "completes (t_front t)" using t_front_safe [OF w s] by (simp add: completes_def)
  show "completes (t_back t)" using t_back_safe [OF w s] by (simp add: completes_def)
next
  assume a: "t_run m queue_trivial_new tops = Inr t \<and> 0 \<le> j \<and> j < size_t t"
  then have w: "t_safe t" using t_run_new_safe by blast
  show "completes (t_index t j)" using t_index_safe [OF w, of j] a by (simp add: completes_def)
qed

theorem precondition_assertions_witness:
  "pop (queue_new :: int queue) = Inl AssertionFailed \<and>
   front (queue_new :: int queue) = Inl AssertionFailed \<and>
   back_q (queue_new :: int queue) = Inl AssertionFailed \<and>
   index (queue_new :: int queue) 0 = Inl AssertionFailed \<and>
   run int_env queue_new [PushBack (Outside (1::int)), PushBack (Outside 2)] =
     Inr \<lparr>buffer_m = [Some 1, Some 2], front_m = 0, back_m = 0, capacity_m = 2, size_m = 2,
          constructed = 0, destroyed = 0, mallocs = 1\<rparr> \<and>
   completes (pop \<lparr>buffer_m = [Some 1, Some (2::int)], front_m = 0, back_m = 0, capacity_m = 2,
          size_m = 2, constructed = 0, destroyed = 0, mallocs = 1\<rparr>) \<and>
   completes (front \<lparr>buffer_m = [Some 1, Some (2::int)], front_m = 0, back_m = 0, capacity_m = 2,
          size_m = 2, constructed = 0, destroyed = 0, mallocs = 1\<rparr>) \<and>
   completes (back_q \<lparr>buffer_m = [Some 1, Some (2::int)], front_m = 0, back_m = 0, capacity_m = 2,
          size_m = 2, constructed = 0, destroyed = 0, mallocs = 1\<rparr>) \<and>
   completes (index \<lparr>buffer_m = [Some 1, Some (2::int)], front_m = 0, back_m = 0, capacity_m = 2,
          size_m = 2, constructed = 0, destroyed = 0, mallocs = 1\<rparr> 1) \<and>
   t_pop (queue_trivial_new :: int queue_trivial) = Inl AssertionFailed \<and>
   t_pop_deinit id (queue_trivial_new :: int queue_trivial) = Inl AssertionFailed \<and>
   t_front (queue_trivial_new :: int queue_trivial) = Inl AssertionFailed \<and>
   t_back (queue_trivial_new :: int queue_trivial) = Inl AssertionFailed \<and>
   t_index (queue_trivial_new :: int queue_trivial) (- 1) = Inl AssertionFailed \<and>
   t_run int_env queue_trivial_new [TPushBack (Outside (1::int)), TClear] =
     Inr \<lparr>buffer_t = [Some 1, None], front_t = 0, back_t = 0, capacity_t = 2, size_t = 1,
          mallocs_t = 1\<rparr> \<and>
   completes (t_pop \<lparr>buffer_t = [Some (1::int), None], front_t = 0, back_t = 0, capacity_t = 2,
          size_t = 1, mallocs_t = 1\<rparr>) \<and>
   completes (t_pop_deinit id \<lparr>buffer_t = [Some (1::int), None], front_t = 0, back_t = 0,
          capacity_t = 2, size_t = 1, mallocs_t = 1\<rparr>) \<and>
   completes (t_front \<lparr>buffer_t = [Some (1::int), None], front_t = 0, back_t = 0, capacity_t = 2,
          size_t = 1, mallocs_t = 1\<rparr>) \<and>
   completes (t_back \<lparr>buffer_t = [Some (1::int), None], front_t = 0, back_t = 0, capacity_t = 2,
          size_t = 1, mallocs_t = 1\<rparr>) \<and>
   completes (t_index \<lparr>buffer_t = [Some (1::int), None], front_t = 0, back_t = 0, capacity_t = 2,
          size_t = 1, mallocs_t = 1\<rparr> 0)"
proof -
  let ?q = "\<lparr>buffer_m = [Some 1, Some (2::int)], front_m = 0, back_m = 0, capacity_m = 2,
          size_m = 2, constructed = 0, destroyed = 0, mallocs = 1\<rparr>"
  let ?t = "\<lparr>buffer_t = [Some (1::int), None], front_t = 0, back_t = 0, capacity_t = 2,
          size_t = 1, mallocs_t = 1\<rparr>"
  have e1: "size_m (queue_new :: int queue) = 0" by (simp add: queue_new_def)
  have e2: "(0::int) < 0 \<or> size_m (queue_new :: int queue) \<le> 0" by (simp add: queue_new_def)
  have e3: "size_t (queue_trivial_new :: int queue_trivial) = 0"
    by (simp add: queue_trivial_new_def)
  have e4: "(- 1 :: int) < 0 \<or> size_t (queue_trivial_new :: int queue_trivial) \<le> - 1" by simp
  have h1: "run int_env queue_new [PushBack (Outside (1::int)), PushBack (Outside 2)] = Inr ?q"
    by (simp add: queue_eval)
  have h2: "t_run int_env queue_trivial_new [TPushBack (Outside (1::int)), TClear] = Inr ?t"
    by (simp add: queue_trivial_eval)
  have s1: "size_m ?q > 0" "0 \<le> (1::int) \<and> 1 < size_m ?q" by simp_all
  have s2: "size_t ?t > 0" "0 \<le> (0::int) \<and> 0 < size_t ?t" by simp_all
  note empty_case = precondition_assertions
    [where q = "queue_new :: int queue" and i = 0 and t = "queue_trivial_new :: int queue_trivial"
       and j = "- 1" and f = id]
  note live_case = precondition_assertions
    [where q = ?q and i = 1 and m = int_env
       and ops = "[PushBack (Outside (1::int)), PushBack (Outside 2)]"
       and t = ?t and j = 0 and tops = "[TPushBack (Outside (1::int)), TClear]" and f = id]
  have a: "pop (queue_new :: int queue) = Inl AssertionFailed \<and>
      front (queue_new :: int queue) = Inl AssertionFailed \<and>
      back_q (queue_new :: int queue) = Inl AssertionFailed"
    using empty_case e1 by blast
  have b: "index (queue_new :: int queue) 0 = Inl AssertionFailed"
    using empty_case e2 by blast
  have c: "t_pop (queue_trivial_new :: int queue_trivial) = Inl AssertionFailed \<and>
      t_pop_deinit id (queue_trivial_new :: int queue_trivial) = Inl AssertionFailed \<and>
      t_front (queue_trivial_new :: int queue_trivial) = Inl AssertionFailed \<and>
      t_back (queue_trivial_new :: int queue_trivial) = Inl AssertionFailed"
    using empty_case e3 by blast
  have d: "t_index (queue_trivial_new :: int queue_trivial) (- 1) = Inl AssertionFailed"
    using empty_case e4 by blast
  have e: "completes (pop ?q) \<and> completes (front ?q) \<and> completes (back_q ?q)"
    using live_case h1 s1(1) by blast
  have f: "completes (index ?q 1)" using live_case h1 s1(2) by blast
  have g: "completes (t_pop ?t) \<and> completes (t_pop_deinit id ?t) \<and>
      completes (t_front ?t) \<and> completes (t_back ?t)"
    using live_case h2 s2(1) by blast
  have h: "completes (t_index ?t 0)" using live_case h2 s2(2) by blast
  show ?thesis using a b c d e f g h h1 h2 by blast
qed




text \<open>
  C10. For the general variant, two iterators are equal exactly when their offsets are
  equal, and unequal exactly when their offsets differ, whatever buffer, front index and
  capacity they hold: iterators made from different buffers, fronts and capacities with
  one offset are equal. For every queue, \<^verbatim>\<open>begin() == end()\<close> exactly when \<open>size = 0\<close>.
\<close>

theorem iterator_eq_offset_only:
  "(iterator_eq a b \<longleftrightarrow> it_offset a = it_offset b) \<and>
   (iterator_neq a b \<longleftrightarrow> it_offset a \<noteq> it_offset b) \<and>
   iterator_eq (iterator_new buf1 fr1 off cap1) (iterator_new buf2 fr2 off cap2) \<and>
   (iterator_eq (begin_it q) (end_it q) \<longleftrightarrow> size_m q = 0)"
  by (auto simp add: iterator_eq_def iterator_neq_def iterator_new_def begin_it_def end_it_def)

end
